theory Spec2Isabelle
  imports Main
begin

section \<open>DockerS3LogDriver: the log relay of s3.go\<close>

text \<open>
  The program is one Go file, \<^verbatim>\<open>s3.go\<close>: \<^verbatim>\<open>main\<close>, the method \<^verbatim>\<open>Log\<close> and the method
  \<^verbatim>\<open>Capabilities\<close> of \<^verbatim>\<open>S3Logger\<close>. \<^verbatim>\<open>Log\<close> calls into libraries: the S3 client
  (\<^verbatim>\<open>GetObjectWithContext\<close>), \<^verbatim>\<open>bufio.Scanner\<close>, \<^verbatim>\<open>time.Now\<close>, \<^verbatim>\<open>MarshalJSON\<close>,
  the context's \<^verbatim>\<open>Done\<close> channel and the channel \<^verbatim>\<open>config.Logs\<close>. The S3 client, the
  clock, the encoder and the context are parameters of the model (any behaviour); the
  scanner is modelled after Go's \<^verbatim>\<open>bufio\<close> package, since the lines \<^verbatim>\<open>Log\<close> emits are
  the tokens that scanner cuts. Everything \<^verbatim>\<open>Log\<close> does to the outside is recorded, in
  order, in a trace of events.
\<close>

subsection \<open>Go errors\<close>

text \<open>
  A Go \<^verbatim>\<open>error\<close> is a value with a message. The three sentinel values the scanner
  compares against or sets are constructors of their own; every other error is its
  message.
\<close>

datatype error = EOF | ErrTooLong | ErrNoProgress | Other string

fun message :: "error \<Rightarrow> string" where
  "message EOF = ''EOF''"
| "message ErrTooLong = ''bufio.Scanner: token too long''"
| "message ErrNoProgress = ''multiple Read calls return no data or error''"
| "message (Other m) = m"

text \<open>\<^verbatim>\<open>fmt.Errorf(prefix + "%v", err)\<close>: a new error whose message is the prefix followed
  by the message of \<^verbatim>\<open>err\<close>.\<close>

definition Errorf :: "string \<Rightarrow> error \<Rightarrow> error" where
  "Errorf prefix e = Other (prefix @ message e)"

subsection \<open>The data of s3.go\<close>

text \<open>
  \<^verbatim>\<open>reader.Body\<close> is an \<^verbatim>\<open>io.ReadCloser\<close>. A reader is the list of the results its
  \<^verbatim>\<open>Read\<close> calls are going to give: the bytes, and the error returned with them (if any).
  Once the list is used up, \<^verbatim>\<open>Read\<close> returns no bytes and \<^verbatim>\<open>io.EOF\<close>. A read that has
  more bytes than the caller's buffer holds gives the buffer's length of them and keeps
  the rest (and the error) for the next call.
\<close>

type_synonym reader = "(string \<times> error option) list"

fun Read :: "reader \<Rightarrow> nat \<Rightarrow> (string \<times> error option) \<times> reader" where
  "Read [] n = (([], Some EOF), [])"
| "Read ((bs, e) # rest) n =
     (if length bs \<le> n then ((bs, e), rest)
      else ((take n bs, None), (drop n bs, e) # rest))"

text \<open>\<^verbatim>\<open>S3Logger\<close>: the S3 client is what \<^verbatim>\<open>GetObjectWithContext\<close> answers for a bucket
  and a key, an error or the body of the object.\<close>

record S3Logger =
  s3Client :: "string \<Rightarrow> string \<Rightarrow> error + reader"
  bucket :: string

record LogOption =
  S3Bucket :: string

text \<open>\<^verbatim>\<open>logger.Message\<close>, the fields \<^verbatim>\<open>Log\<close> reads. Its channel \<^verbatim>\<open>Logs\<close> is the
  \<open>Send\<close> events of the trace.\<close>

record Message =
  Source :: string
  ContainerID :: string

record LogLine =
  Line :: string
  Source :: string
  Partial :: bool
  Timestamp :: nat

record Capabilities =
  ReadLogs :: bool
  ReadConfig :: bool

text \<open>What \<^verbatim>\<open>Log\<close> does to the outside, in order: the S3 request, the encoding of a line
  and its result, a poll of \<^verbatim>\<open>ctx.Done()\<close> and what it saw, a line sent on
  \<^verbatim>\<open>config.Logs\<close>, and the deferred \<^verbatim>\<open>reader.Body.Close()\<close>.\<close>

datatype event =
    GetObject string string
  | Marshal LogLine "error option"
  | Poll bool
  | Send LogLine
  | Close

text \<open>The context: whether \<^verbatim>\<open>ctx.Done()\<close> is closed when polled, which may depend on
  everything that has happened so far.\<close>

record Context =
  Done :: "event list \<Rightarrow> bool"

text \<open>The libraries' functions: \<^verbatim>\<open>time.Now()\<close> (the clock may depend on what has
  happened) and \<^verbatim>\<open>MarshalJSON\<close> of a log line (\<open>None\<close> is Go's \<^verbatim>\<open>nil\<close> error).\<close>

record env =
  Now :: "event list \<Rightarrow> nat"
  MarshalJSON :: "LogLine \<Rightarrow> error option"

subsection \<open>bufio.Scanner with the split function ScanLines\<close>

definition MaxScanTokenSize :: nat where
  "MaxScanTokenSize = 64 * 1024"

definition startBufSize :: nat where
  "startBufSize = 4096"

definition maxConsecutiveEmptyReads :: nat where
  "maxConsecutiveEmptyReads = 100"

text \<open>\<^verbatim>\<open>const maxInt = int(^uint(0) >> 1)\<close> where \<^verbatim>\<open>int\<close> has 64 bits.\<close>

definition maxInt :: nat where
  "maxInt = 9223372036854775807"

definition LF :: char where
  "LF = CHR 0x0A"

definition CR :: char where
  "CR = CHR 0x0D"

text \<open>
  The scanner's buffer \<^verbatim>\<open>s.buf\<close> is kept as its length \<open>buf_len\<close> and the bytes
  \<^verbatim>\<open>s.buf[s.start:s.end]\<close> that are read and not yet cut into tokens (\<open>pending\<close>), so
  \<^verbatim>\<open>s.end\<close> is \<open>start + length pending\<close>. \<open>tok\<close> is \<^verbatim>\<open>s.token\<close> (\<open>None\<close> is \<^verbatim>\<open>nil\<close>).
  The fields \<^verbatim>\<open>empties\<close>, \<^verbatim>\<open>scanCalled\<close> and \<^verbatim>\<open>done\<close> are left out: with
  \<^verbatim>\<open>ScanLines\<close> a token always advances the input, and the split function never
  returns an error, so they never change what \<^verbatim>\<open>Scan\<close> returns.
\<close>

record Scanner =
  rdr :: reader
  maxTokenSize :: nat
  tok :: "string option"
  buf_len :: nat
  start :: nat
  pending :: string
  err :: "error option"

definition NewScanner :: "reader \<Rightarrow> Scanner" where
  "NewScanner body =
     \<lparr>rdr = body, maxTokenSize = MaxScanTokenSize, tok = None, buf_len = 0, start = 0,
      pending = [], err = None\<rparr>"

text \<open>\<^verbatim>\<open>bytes.IndexByte\<close>; \<open>None\<close> is Go's \<^verbatim>\<open>-1\<close>.\<close>

fun IndexByte :: "string \<Rightarrow> char \<Rightarrow> nat option" where
  "IndexByte [] c = None"
| "IndexByte (x # xs) c = (if x = c then Some 0 else map_option Suc (IndexByte xs c))"

definition dropCR :: "string \<Rightarrow> string" where
  "dropCR data = (if data \<noteq> [] \<and> last data = CR then butlast data else data)"

text \<open>\<^verbatim>\<open>ScanLines(data, atEOF)\<close> returns \<^verbatim>\<open>(advance, token, nil)\<close>.\<close>

definition ScanLines :: "string \<Rightarrow> bool \<Rightarrow> nat \<times> string option" where
  "ScanLines data atEOF =
     (if atEOF \<and> data = [] then (0, None)
      else case IndexByte data LF of
             Some i \<Rightarrow> (i + 1, Some (dropCR (take i data)))
           | None \<Rightarrow> if atEOF then (length data, Some (dropCR data)) else (0, None))"

definition setErr :: "error \<Rightarrow> Scanner \<Rightarrow> Scanner" where
  "setErr e s = (if err s = None \<or> err s = Some EOF then s\<lparr>err := Some e\<rparr> else s)"

text \<open>The first block of the loop of \<^verbatim>\<open>Scan\<close>: the split function on the pending
  bytes, and \<^verbatim>\<open>s.advance\<close>. The result says whether there is a token.\<close>

definition trySplit :: "Scanner \<Rightarrow> Scanner \<times> bool" where
  "trySplit s =
     (case ScanLines (pending s) (err s \<noteq> None) of
        (advance, token) \<Rightarrow>
          (s\<lparr>start := start s + advance, pending := drop advance (pending s), tok := token\<rparr>,
           token \<noteq> None))"

text \<open>Moving the pending bytes to the front of the buffer, and doubling the buffer.\<close>

definition shift :: "Scanner \<Rightarrow> Scanner" where
  "shift s =
     (if 0 < start s \<and>
         (start s + length (pending s) = buf_len s \<or> buf_len s div 2 < start s)
      then s\<lparr>start := 0\<rparr> else s)"

definition grow :: "Scanner \<Rightarrow> Scanner" where
  "grow s =
     (let newSize = buf_len s * 2;
          newSize = (if newSize = 0 then startBufSize else newSize);
          newSize = min newSize (maxTokenSize s)
      in s\<lparr>buf_len := newSize, start := 0\<rparr>)"

text \<open>The inner loop \<^verbatim>\<open>for loop := 0; ; { ... }\<close> that reads into the free end of the
  buffer. \<^verbatim>\<open>ErrBadReadCount\<close> cannot happen: \<open>Read\<close> never gives more than it is asked.\<close>

function readLoop :: "nat \<Rightarrow> Scanner \<Rightarrow> Scanner" where
  "readLoop loop s =
     (case Read (rdr s) (buf_len s - (start s + length (pending s))) of
        ((bs, e), rest) \<Rightarrow>
          (let s1 = s\<lparr>rdr := rest, pending := pending s @ bs\<rparr> in
           case e of
             Some e' \<Rightarrow> setErr e' s1
           | None \<Rightarrow>
               if bs \<noteq> [] then s1
               else if maxConsecutiveEmptyReads < loop + 1 then setErr ErrNoProgress s1
               else readLoop (loop + 1) s1))"
  by pat_completeness auto
termination
  by (relation "measure (\<lambda>(loop, s). maxConsecutiveEmptyReads + 1 - loop)") auto

declare readLoop.simps [simp del]

text \<open>One pass through the body of the loop \<^verbatim>\<open>for { ... }\<close> of \<^verbatim>\<open>Scan\<close>: it returns, or
  it has read more input and goes round again.\<close>

datatype scan_step = Return bool Scanner | Continue Scanner

definition scan_iter :: "Scanner \<Rightarrow> scan_step" where
  "scan_iter s =
     (case (if pending s \<noteq> [] \<or> err s \<noteq> None then trySplit s else (s, False)) of
        (s1, True) \<Rightarrow> Return True s1
      | (s1, False) \<Rightarrow>
          if err s1 \<noteq> None then Return False (s1\<lparr>start := 0, pending := []\<rparr>)
          else
            (let s2 = shift s1 in
             if start s2 + length (pending s2) = buf_len s2 then
               (if maxTokenSize s2 \<le> buf_len s2 \<or> maxInt div 2 < buf_len s2
                then Return False (setErr ErrTooLong s2)
                else Continue (readLoop 0 (grow s2)))
             else Continue (readLoop 0 s2)))"

text \<open>Sizes of a reader: its events and bytes (what is left to read), and its bytes.\<close>

fun rsize :: "reader \<Rightarrow> nat" where
  "rsize [] = 0"
| "rsize ((bs, e) # rest) = Suc (length bs) + rsize rest"

fun rbytes :: "reader \<Rightarrow> nat" where
  "rbytes [] = 0"
| "rbytes ((bs, e) # rest) = length bs + rbytes rest"

definition left_to_read :: "Scanner \<Rightarrow> nat" where
  "left_to_read s = (if err s = None then Suc (rsize (rdr s)) else 0)"

definition avail :: "Scanner \<Rightarrow> nat" where
  "avail s = length (pending s) + rbytes (rdr s)"

lemma rsize_Read:
  "Read rd n = ((bs, e), rest) \<Longrightarrow> e = None \<Longrightarrow> bs \<noteq> [] \<Longrightarrow> rsize rest < rsize rd"
  by (cases rd) (auto split: if_splits)

lemma rsize_Read_le:
  "Read rd n = ((bs, e), rest) \<Longrightarrow> rsize rest \<le> rsize rd"
  by (cases rd) (auto split: if_splits)

lemma rbytes_Read:
  "Read rd n = ((bs, e), rest) \<Longrightarrow> length bs + rbytes rest = rbytes rd"
  by (cases rd) (auto split: if_splits)

lemma readLoop_progress:
  "err s = None \<Longrightarrow>
   err (readLoop k s) \<noteq> None \<or> rsize (rdr (readLoop k s)) < rsize (rdr s)"
proof (induction k s rule: readLoop.induct)
  case (1 loop s)
  obtain bs e rest where rd: "Read (rdr s) (buf_len s - (start s + length (pending s))) = ((bs, e), rest)"
    by (metis prod.exhaust)
  let ?s1 = "s\<lparr>rdr := rest, pending := pending s @ bs\<rparr>"
  show ?case
  proof (cases e)
    case (Some e')
    with rd "1.prems" show ?thesis
      by (simp add: readLoop.simps [of loop s] setErr_def)
  next
    case None
    show ?thesis
    proof (cases "bs \<noteq> []")
      case True
      with rd None rsize_Read [OF rd] show ?thesis
        by (simp add: readLoop.simps [of loop s])
    next
      case False
      show ?thesis
      proof (cases "maxConsecutiveEmptyReads < loop + 1")
        case True
        with rd None False "1.prems" show ?thesis
          by (simp add: readLoop.simps [of loop s] setErr_def)
      next
        case nolimit: False
        have "err (readLoop (loop + 1) ?s1) \<noteq> None \<or>
              rsize (rdr (readLoop (loop + 1) ?s1)) < rsize (rdr ?s1)"
          using "1.IH" [OF rd [symmetric] refl refl None _ nolimit] False "1.prems" by simp
        moreover have "rsize (rdr ?s1) \<le> rsize (rdr s)"
          using rsize_Read_le [OF rd] by simp
        ultimately show ?thesis
          using rd None False nolimit
          by (auto simp add: readLoop.simps [of loop s])
      qed
    qed
  qed
qed

lemma readLoop_avail: "avail (readLoop k s) = avail s"
proof (induction k s rule: readLoop.induct)
  case (1 loop s)
  obtain bs e rest where rd: "Read (rdr s) (buf_len s - (start s + length (pending s))) = ((bs, e), rest)"
    by (metis prod.exhaust)
  let ?s1 = "s\<lparr>rdr := rest, pending := pending s @ bs\<rparr>"
  have s1: "avail ?s1 = avail s"
    using rbytes_Read [OF rd] by (simp add: avail_def)
  show ?case
  proof (cases e)
    case (Some e')
    with rd s1 show ?thesis
      by (simp add: readLoop.simps [of loop s] setErr_def avail_def Let_def)
  next
    case None
    show ?thesis
    proof (cases "bs \<noteq> [] \<or> maxConsecutiveEmptyReads < loop + 1")
      case True
      with rd None s1 show ?thesis
        by (auto simp add: readLoop.simps [of loop s] setErr_def avail_def Let_def)
    next
      case False
      then have "avail (readLoop (loop + 1) ?s1) = avail ?s1"
        using "1.IH" [OF rd [symmetric] refl refl None] by simp
      with rd None False s1 show ?thesis
        by (simp add: readLoop.simps [of loop s])
    qed
  qed
qed

lemma trySplit_fields [simp]:
  "rdr (fst (trySplit s)) = rdr s"
  "err (fst (trySplit s)) = err s"
  "buf_len (fst (trySplit s)) = buf_len s"
  "maxTokenSize (fst (trySplit s)) = maxTokenSize s"
  by (simp_all add: trySplit_def split: prod.splits)

lemma shift_fields [simp]:
  "rdr (shift s) = rdr s"
  "err (shift s) = err s"
  "pending (shift s) = pending s"
  "buf_len (shift s) = buf_len s"
  "maxTokenSize (shift s) = maxTokenSize s"
  "tok (shift s) = tok s"
  by (simp_all add: shift_def)

lemma grow_fields [simp]:
  "rdr (grow s) = rdr s"
  "err (grow s) = err s"
  "pending (grow s) = pending s"
  "maxTokenSize (grow s) = maxTokenSize s"
  "tok (grow s) = tok s"
  "start (grow s) = 0"
  by (simp_all add: grow_def Let_def)

lemma scan_iter_Continue:
  assumes "scan_iter s = Continue s'"
  shows "left_to_read s' < left_to_read s"
proof -
  obtain s1 b where p: "(if pending s \<noteq> [] \<or> err s \<noteq> None then trySplit s else (s, False)) = (s1, b)"
    by (metis prod.exhaust)
  then have s1: "s1 = (if pending s \<noteq> [] \<or> err s \<noteq> None then fst (trySplit s) else s)"
    by (auto split: if_splits)
  have fields: "rdr s1 = rdr s" "err s1 = err s"
    by (simp_all add: s1)
  from assms have none: "err s1 = None"
    and s': "s' = readLoop 0 (grow (shift s1)) \<or> s' = readLoop 0 (shift s1)"
    unfolding scan_iter_def p by (auto simp add: Let_def split: if_splits bool.splits)
  from s' show ?thesis
  proof
    assume "s' = readLoop 0 (grow (shift s1))"
    with readLoop_progress [of "grow (shift s1)" 0] none fields show ?thesis
      by (auto simp add: left_to_read_def)
  next
    assume "s' = readLoop 0 (shift s1)"
    with readLoop_progress [of "shift s1" 0] none fields show ?thesis
      by (auto simp add: left_to_read_def)
  qed
qed

text \<open>\<^verbatim>\<open>func (s *Scanner) Scan() bool\<close>: the result and the scanner afterwards.\<close>

function Scan :: "Scanner \<Rightarrow> bool \<times> Scanner" where
  "Scan s = (case scan_iter s of Return b s' \<Rightarrow> (b, s') | Continue s' \<Rightarrow> Scan s')"
  by pat_completeness auto
termination
  by (relation "measure left_to_read") (auto simp add: scan_iter_Continue)

declare Scan.simps [simp del]

text \<open>\<^verbatim>\<open>func (s *Scanner) Text() string\<close>: \<^verbatim>\<open>string(s.token)\<close>.\<close>

definition Text :: "Scanner \<Rightarrow> string" where
  "Text s = (case tok s of None \<Rightarrow> [] | Some t \<Rightarrow> t)"

text \<open>A call of \<open>Scan\<close> that gives a token uses up at least one byte of the input.\<close>

lemma IndexByte_less: "IndexByte data c = Some i \<Longrightarrow> i < length data"
  by (induction data arbitrary: i) (auto split: if_splits)

lemma trySplit_avail:
  "trySplit s = (s1, b) \<Longrightarrow> (if b then avail s1 < avail s else avail s1 = avail s)"
  by (auto simp add: trySplit_def ScanLines_def avail_def
      split: if_splits option.splits dest: IndexByte_less)

lemma shift_avail [simp]: "avail (shift s) = avail s"
  by (simp add: avail_def)

lemma grow_avail [simp]: "avail (grow s) = avail s"
  by (simp add: avail_def)

lemma scan_iter_avail:
  "scan_iter s = Return True s' \<Longrightarrow> avail s' < avail s"
  "scan_iter s = Continue s' \<Longrightarrow> avail s' = avail s"
  by (auto simp add: scan_iter_def Let_def readLoop_avail
      split: prod.splits if_splits bool.splits dest: trySplit_avail)

lemma Scan_avail: "Scan s = (True, s') \<Longrightarrow> avail s' < avail s"
proof (induction s rule: Scan.induct)
  case (1 s)
  show ?case
  proof (cases "scan_iter s")
    case (Return b s1)
    with "1.prems" scan_iter_avail(1) [of s s'] show ?thesis
      by (simp add: Scan.simps [of s])
  next
    case (Continue s1)
    with "1.prems" "1.IH" [OF Continue] scan_iter_avail(2) [OF Continue] show ?thesis
      by (simp add: Scan.simps [of s])
  qed
qed

subsection \<open>Log\<close>

text \<open>
  The loop \<^verbatim>\<open>for scanner.Scan() { ... }\<close> of \<^verbatim>\<open>Log\<close>, from the scanner and the trace so
  far to the error \<^verbatim>\<open>Log\<close> returns (\<open>None\<close> is \<^verbatim>\<open>nil\<close>) and the trace at the end. When
  \<open>Scan\<close> returns false the loop ends and \<^verbatim>\<open>Log\<close> returns \<^verbatim>\<open>nil\<close>: \<^verbatim>\<open>scanner.Err()\<close> is
  not called. The send on \<^verbatim>\<open>config.Logs\<close> is taken to complete (the host receives).
\<close>

function Log_loop ::
  "env \<Rightarrow> Context \<Rightarrow> string \<Rightarrow> Scanner \<Rightarrow> event list \<Rightarrow> error option \<times> event list" where
  "Log_loop E ctx containerID s t =
     (case Scan s of
        (False, s') \<Rightarrow> (None, t)
      | (True, s') \<Rightarrow>
          (let logLine = Text s';
               configLine = \<lparr>Line = logLine, Source = containerID, Partial = False,
                             Timestamp = Now E t\<rparr>;
               merr = MarshalJSON E configLine;
               t1 = t @ [Marshal configLine merr]
           in case merr of
                Some e \<Rightarrow> (Some (Errorf ''error marshalling log line: '' e), t1)
              | None \<Rightarrow>
                  if Done ctx t1 then (None, t1 @ [Poll True])
                  else Log_loop E ctx containerID s' (t1 @ [Poll False, Send configLine])))"
  by pat_completeness auto
termination
  by (relation "measure (\<lambda>(E, ctx, containerID, s, t). avail s)") (auto simp add: Scan_avail)

declare Log_loop.simps [simp del]

text \<open>\<^verbatim>\<open>func (l *S3Logger) Log(ctx context.Context, config logger.Message) error\<close>. The
  deferred \<^verbatim>\<open>reader.Body.Close()\<close> runs when the function returns after a successful
  \<^verbatim>\<open>GetObjectWithContext\<close>, whatever the loop returned.\<close>

definition Log ::
  "env \<Rightarrow> S3Logger \<Rightarrow> Context \<Rightarrow> Message \<Rightarrow> error option \<times> event list" where
  "Log E l ctx config =
     (if Message.Source config \<noteq> [] then (None, [])
      else
        (let containerID = ContainerID config;
             t = [GetObject (bucket l) containerID]
         in case s3Client l (bucket l) containerID of
              Inl e \<Rightarrow> (Some (Errorf ''failed to get object from S3: '' e), t)
            | Inr body \<Rightarrow>
                (case Log_loop E ctx containerID (NewScanner body) t of
                   (res, t') \<Rightarrow> (res, t' @ [Close]))))"

subsection \<open>Capabilities\<close>

definition Capabilities :: "S3Logger \<Rightarrow> Capabilities" where
  "Capabilities l = \<lparr>ReadLogs = False, ReadConfig = False\<rparr>"

subsection \<open>main\<close>

text \<open>
  What the process does, in order, and how it ends. \<^verbatim>\<open>fmt.Println\<close> and \<^verbatim>\<open>fmt.Printf\<close>
  write to standard output. \<open>opts\<close> is the \<^verbatim>\<open>LogOption\<close> after \<^verbatim>\<open>flag.Parse()\<close>: its
  \<open>S3Bucket\<close> is the value of the flag \<^verbatim>\<open>-s3-bucket\<close>, and the default \<^verbatim>\<open>""\<close> when the
  flag is not given. \<open>sess\<close> is the error of \<^verbatim>\<open>session.NewSessionWithOptions\<close>
  (\<^verbatim>\<open>session.Must\<close> panics on it) and \<open>serve\<close> the error \<^verbatim>\<open>h.ServeUnix\<close> returns.
\<close>

definition driverName :: string where
  "driverName = ''s3logdriver''"

datatype sys_event =
    Stdout string
  | NewSession
  | S3New
  | NewHandler string
  | ServeUnix string nat

datatype outcome = Exit nat | Panic error | Returned

definition main :: "LogOption \<Rightarrow> error option \<Rightarrow> error option \<Rightarrow> sys_event list \<times> outcome" where
  "main opts sess serve =
     (if S3Bucket opts = [] then
        ([Stdout (''Please provide an S3 bucket name'' @ [LF])], Exit 1)
      else
        (case sess of
           Some e \<Rightarrow> ([NewSession], Panic e)
         | None \<Rightarrow>
             (let t = [NewSession, S3New, NewHandler (S3Bucket opts), ServeUnix driverName 0]
              in case serve of
                   Some e \<Rightarrow>
                     (t @ [Stdout (''Error starting the S3 logger: '' @ message e @ [LF])],
                      Exit 1)
                 | None \<Rightarrow> (t, Returned))))"

section \<open>What the claims speak of\<close>

text \<open>The lines sent on \<^verbatim>\<open>config.Logs\<close>, in the order sent.\<close>

fun emitted :: "event list \<Rightarrow> LogLine list" where
  "emitted [] = []"
| "emitted (Send ll # t) = ll # emitted t"
| "emitted (ev # t) = emitted t"

text \<open>The tokens a scanner yields when it is scanned to the end, as the loop of \<^verbatim>\<open>Log\<close>
  does, and what \<^verbatim>\<open>scanner.Err()\<close> would return afterwards (\<^verbatim>\<open>nil\<close> for \<^verbatim>\<open>io.EOF\<close>).\<close>

function Tokens :: "Scanner \<Rightarrow> string list" where
  "Tokens s = (case Scan s of (True, s') \<Rightarrow> Text s' # Tokens s' | (False, s') \<Rightarrow> [])"
  by pat_completeness auto
termination
  by (relation "measure avail") (auto simp add: Scan_avail)

declare Tokens.simps [simp del]

function ScanErr :: "Scanner \<Rightarrow> error option" where
  "ScanErr s =
     (case Scan s of
        (True, s') \<Rightarrow> ScanErr s'
      | (False, s') \<Rightarrow> (if err s' = Some EOF then None else err s'))"
  by pat_completeness auto
termination
  by (relation "measure avail") (auto simp add: Scan_avail)

declare ScanErr.simps [simp del]

text \<open>
  What a reader delivers to the scanner: the bytes up to its first error, and that error.
  The error is \<^verbatim>\<open>io.EOF\<close> when the reads are used up, and \<^verbatim>\<open>io.ErrNoProgress\<close> when more
  than \<open>maxConsecutiveEmptyReads\<close> reads in a row give no byte and no error; \<open>k\<close> counts
  the empty reads so far.
\<close>

fun delivered :: "nat \<Rightarrow> reader \<Rightarrow> string" where
  "delivered k [] = []"
| "delivered k ((bs, Some e) # rest) = bs"
| "delivered k ((bs, None) # rest) =
     (if bs = [] then (if maxConsecutiveEmptyReads \<le> k then [] else delivered (Suc k) rest)
      else bs @ delivered 0 rest)"

fun ending :: "nat \<Rightarrow> reader \<Rightarrow> error" where
  "ending k [] = EOF"
| "ending k ((bs, Some e) # rest) = e"
| "ending k ((bs, None) # rest) =
     (if bs = [] then (if maxConsecutiveEmptyReads \<le> k then ErrNoProgress else ending (Suc k) rest)
      else ending 0 rest)"

text \<open>
  The newline-delimited records of a byte string, after the words of the specification:
  a record runs up to the next newline, which ends it and is not part of it; bytes after
  the last newline are a last record.
\<close>

function spec_records :: "string \<Rightarrow> string list" where
  "spec_records data =
     (if data = [] then []
      else takeWhile (\<lambda>c. c \<noteq> LF) data # spec_records (tl (dropWhile (\<lambda>c. c \<noteq> LF) data)))"
  by pat_completeness auto
termination
proof (relation "measure length")
  fix data :: string
  assume "data \<noteq> []"
  moreover have "length (dropWhile (\<lambda>c. c \<noteq> LF) data) \<le> length data"
    by (rule length_dropWhile_le)
  ultimately show "(tl (dropWhile (\<lambda>c. c \<noteq> LF) data), data) \<in> measure length"
    by (cases data) auto
qed simp

declare spec_records.simps [simp del]

subsection \<open>The scenarios of the specification, and other examples\<close>

text \<open>The bucket \<^verbatim>\<open>logs-test\<close> holds one object, \<^verbatim>\<open>abc123\<close>, of three lines; the S3 client
  delivers it in one read. Any other key is missing.\<close>

definition scenario_body :: reader where
  "scenario_body = [(''line1'' @ [LF] @ ''line2'' @ [LF] @ ''line3'', None)]"

definition scenario_store :: "string \<Rightarrow> string \<Rightarrow> error + reader" where
  "scenario_store b k =
     (if b = ''logs-test'' \<and> k = ''abc123'' then Inr scenario_body
      else Inl (Other ''NoSuchKey''))"

text \<open>A logger whose S3 client answers every request with the same body.\<close>

definition logger_of :: "reader \<Rightarrow> S3Logger" where
  "logger_of body = \<lparr>s3Client = (\<lambda>b k. Inr body), bucket = ''logs-test''\<rparr>"

text \<open>A stream whose read fails in the middle of the second line, and an object that
  holds the bytes that stream delivered.\<close>

definition failing_body :: reader where
  "failing_body = [(''line1'' @ [LF] @ ''li'', Some (Other ''connection reset''))]"

definition partial_body :: reader where
  "partial_body = [(''line1'' @ [LF] @ ''li'', None)]"

text \<open>An object whose second line is as long as the scanner's limit, and an object that
  holds its first line only.\<close>

definition long_body :: reader where
  "long_body =
     [(''line1'' @ [LF] @ replicate MaxScanTokenSize (CHR ''x'') @ [LF] @ ''line3'', None)]"

definition short_body :: reader where
  "short_body = [(''line1'' @ [LF], None)]"

text \<open>The object of the scenario with a carriage return before the first newline,
  delivered in three reads: the second gives nothing, the third gives the last bytes
  together with \<^verbatim>\<open>io.EOF\<close>.\<close>

definition chunked_body :: reader where
  "chunked_body =
     [(''line1'' @ [CR, LF] @ ''li'', None), ([], None),
      (''ne2'' @ [LF] @ ''line3'', Some EOF)]"

definition scenario_logger :: S3Logger where
  "scenario_logger = \<lparr>s3Client = scenario_store, bucket = ''logs-test''\<rparr>"

definition scenario_request :: Message where
  "scenario_request = \<lparr>Message.Source = [], ContainerID = ''abc123''\<rparr>"

definition missing_request :: Message where
  "missing_request = \<lparr>Message.Source = [], ContainerID = ''missing-obj''\<rparr>"

definition stdout_request :: Message where
  "stdout_request = \<lparr>Message.Source = ''stdout'', ContainerID = ''abc123''\<rparr>"

text \<open>A clock that counts the events so far, and an encoder that never fails.\<close>

definition plain_env :: env where
  "plain_env = \<lparr>Now = length, MarshalJSON = (\<lambda>ll. None)\<rparr>"

text \<open>An encoder that fails on the line \<^verbatim>\<open>line2\<close>.\<close>

definition failing_env :: env where
  "failing_env =
     \<lparr>Now = length,
      MarshalJSON = (\<lambda>ll. if Line ll = ''line2'' then Some (Other ''unsupported'') else None)\<rparr>"

text \<open>An encoder that fails on the line \<^verbatim>\<open>absent\<close>, which no example holds.\<close>

definition picky_env :: env where
  "picky_env =
     \<lparr>Now = length,
      MarshalJSON = (\<lambda>ll. if Line ll = ''absent'' then Some (Other ''unsupported'') else None)\<rparr>"

text \<open>A context that is never cancelled, and one that is cancelled once the host has
  been sent \<open>n\<close> lines.\<close>

definition live_ctx :: Context where
  "live_ctx = \<lparr>Done = (\<lambda>t. False)\<rparr>"

definition cancel_after :: "nat \<Rightarrow> Context" where
  "cancel_after n = \<lparr>Done = (\<lambda>t. n \<le> length (emitted t))\<rparr>"

definition line1 :: LogLine where
  "line1 = \<lparr>Line = ''line1'', Source = ''abc123'', Partial = False, Timestamp = 1\<rparr>"

definition line2 :: LogLine where
  "line2 = \<lparr>Line = ''line2'', Source = ''abc123'', Partial = False, Timestamp = 4\<rparr>"

definition line3 :: LogLine where
  "line3 = \<lparr>Line = ''line3'', Source = ''abc123'', Partial = False, Timestamp = 7\<rparr>"

text \<open>The line made of the last bytes of the stream whose read fails, when it is the
  second line of a run.\<close>

definition line_li :: LogLine where
  "line_li = \<lparr>Line = ''li'', Source = ''abc123'', Partial = False, Timestamp = 4\<rparr>"

section \<open>Lemmas\<close>

subsection \<open>Lists of events\<close>

lemma wrap_split:
  assumes "g # new @ [c] = p @ x # q" and "x \<noteq> g" and "x \<noteq> c"
  shows "\<exists>p1 q1. p = g # p1 \<and> q = q1 @ [c] \<and> new = p1 @ x # q1"
proof (cases p)
  case Nil
  with assms show ?thesis
    by simp
next
  case (Cons a p1)
  with assms have a: "a = g" and rest: "new @ [c] = p1 @ x # q"
    by simp_all
  show ?thesis
  proof (cases q rule: rev_cases)
    case Nil
    with rest assms(3) show ?thesis
      by simp
  next
    case (snoc q1 y)
    with rest have "new @ [c] = (p1 @ x # q1) @ [y]"
      by simp
    then have "new = p1 @ x # q1" "c = y"
      by (simp_all only: append1_eq_conv)
    with Cons a snoc show ?thesis
      by simp
  qed
qed

lemma emitted_append: "emitted (xs @ ys) = emitted xs @ emitted ys"
  by (induction xs rule: emitted.induct) simp_all

text \<open>Where an event of a list extended by one event is.\<close>

lemma snoc_eq_split:
  "xs @ [x] = p @ y # q \<longleftrightarrow>
     (q = [] \<and> xs = p \<and> x = y) \<or> (\<exists>q'. q = q' @ [x] \<and> xs = p @ y # q')"
proof (cases q rule: rev_cases)
  case Nil
  then show ?thesis
    by auto
next
  case (snoc q' z)
  have "xs @ [x] = (p @ y # q') @ [z] \<longleftrightarrow> xs = p @ y # q' \<and> x = z"
    by (simp only: append1_eq_conv)
  with snoc show ?thesis
    by auto
qed

subsection \<open>The shape of a run of the loop\<close>

text \<open>
  The events the loop of \<^verbatim>\<open>Log\<close> adds to the trace, and the error it returns: for each
  line its encoding, the poll of the context and the send, until the scanner stops, the
  context is seen cancelled or the encoding fails.
\<close>

inductive loop_run :: "env \<Rightarrow> string \<Rightarrow> event list \<Rightarrow> error option \<Rightarrow> bool" for E cid where
  exhausted: "loop_run E cid [] None"
| cancelled:
    "LogLine.Source ll = cid \<Longrightarrow> \<not> Partial ll \<Longrightarrow> MarshalJSON E ll = None \<Longrightarrow>
     loop_run E cid [Marshal ll None, Poll True] None"
| failed:
    "MarshalJSON E ll = Some e \<Longrightarrow>
     loop_run E cid [Marshal ll (Some e)] (Some (Errorf ''error marshalling log line: '' e))"
| sent:
    "LogLine.Source ll = cid \<Longrightarrow> \<not> Partial ll \<Longrightarrow> MarshalJSON E ll = None \<Longrightarrow>
     loop_run E cid new res \<Longrightarrow>
     loop_run E cid (Marshal ll None # Poll False # Send ll # new) res"

lemma Log_loop_run:
  "Log_loop E ctx cid s t = (res, t') \<Longrightarrow> \<exists>new. t' = t @ new \<and> loop_run E cid new res"
proof (induction E ctx cid s t arbitrary: res t' rule: Log_loop.induct)
  case (1 E ctx cid s t)
  obtain b s' where sc: "Scan s = (b, s')"
    by (cases "Scan s")
  define ll where "ll = \<lparr>Line = Text s', Source = cid, Partial = False, Timestamp = Now E t\<rparr>"
  have ll: "LogLine.Source ll = cid" "\<not> Partial ll"
    by (simp_all add: ll_def)
  show ?case
  proof (cases b)
    case False
    with sc "1.prems" have "t' = t" "res = None"
      by (simp_all add: Log_loop.simps [of E ctx cid s t])
    then show ?thesis
      by (auto intro: loop_run.exhausted)
  next
    case True
    show ?thesis
    proof (cases "MarshalJSON E ll")
      case (Some e)
      with sc True "1.prems"
      have "res = Some (Errorf ''error marshalling log line: '' e)" "t' = t @ [Marshal ll (Some e)]"
        by (simp_all add: Log_loop.simps [of E ctx cid s t] ll_def Let_def)
      with Some show ?thesis
        by (auto intro: loop_run.failed)
    next
      case None
      show ?thesis
      proof (cases "Done ctx (t @ [Marshal ll None])")
        case True
        with sc \<open>b\<close> None "1.prems"
        have "res = None" "t' = t @ [Marshal ll None, Poll True]"
          by (simp_all add: Log_loop.simps [of E ctx cid s t] ll_def Let_def)
        with None ll show ?thesis
          by (auto intro: loop_run.cancelled)
      next
        case False
        with sc \<open>b\<close> None "1.prems"
        have rec: "Log_loop E ctx cid s' ((t @ [Marshal ll None]) @ [Poll False, Send ll]) = (res, t')"
          by (simp add: Log_loop.simps [of E ctx cid s t] ll_def Let_def)
        have "\<exists>new. t' = ((t @ [Marshal ll None]) @ [Poll False, Send ll]) @ new \<and> loop_run E cid new res"
          using "1.IH" [of b s' "Text s'" ll "MarshalJSON E ll" "t @ [Marshal ll None]" res t']
            sc \<open>b\<close> None False rec by (simp add: ll_def)
        then obtain new where "t' = t @ Marshal ll None # Poll False # Send ll # new"
          and "loop_run E cid new res"
          by auto
        with None ll show ?thesis
          by (auto intro: loop_run.sent)
      qed
    qed
  qed
qed

lemma loop_run_events:
  "loop_run E cid new res \<Longrightarrow> Close \<notin> set new \<and> GetObject b k \<notin> set new"
  by (induction rule: loop_run.induct) auto

lemma loop_run_emitted:
  "loop_run E cid new res \<Longrightarrow> ll \<in> set (emitted new) \<Longrightarrow>
   LogLine.Source ll = cid \<and> \<not> Partial ll"
  by (induction rule: loop_run.induct) auto

lemma loop_run_marshalled:
  "loop_run E cid new res \<Longrightarrow> Marshal ll r \<in> set new \<Longrightarrow> MarshalJSON E ll = r"
  by (induction rule: loop_run.induct) auto

lemma loop_run_sent:
  "loop_run E cid new res \<Longrightarrow> Send ll \<in> set new \<Longrightarrow> MarshalJSON E ll = None"
  by (induction rule: loop_run.induct) auto

lemma loop_run_cancel:
  "loop_run E cid new res \<Longrightarrow> new = pre @ Poll True # post \<Longrightarrow> res = None \<and> post = []"
proof (induction arbitrary: pre rule: loop_run.induct)
  case (sent ll new res)
  then show ?case
    by (auto simp add: Cons_eq_append_conv)
qed (auto simp add: Cons_eq_append_conv)

lemma loop_run_failure:
  "loop_run E cid new res \<Longrightarrow> new = pre @ Marshal ll (Some e) # post \<Longrightarrow>
   res = Some (Errorf ''error marshalling log line: '' e) \<and> post = []"
proof (induction arbitrary: pre rule: loop_run.induct)
  case (sent ll' new res)
  then show ?case
    by (auto simp add: Cons_eq_append_conv)
qed (auto simp add: Cons_eq_append_conv)

lemma loop_run_before_send:
  "loop_run E cid new res \<Longrightarrow> new = pre @ Send ll # post \<Longrightarrow>
   \<exists>p. pre = p @ [Marshal ll None, Poll False]"
proof (induction arbitrary: pre rule: loop_run.induct)
  case (sent ll' new res)
  from sent.prems sent.IH show ?case
    by (auto simp add: Cons_eq_append_conv)
qed (auto simp add: Cons_eq_append_conv)

lemma loop_run_before_poll:
  "loop_run E cid new res \<Longrightarrow> new = pre @ Poll b # post \<Longrightarrow>
   \<exists>p ll. pre = p @ [Marshal ll None]"
proof (induction arbitrary: pre rule: loop_run.induct)
  case (sent ll' new res)
  from sent.prems sent.IH show ?case
    by (auto simp add: Cons_eq_append_conv)
qed (auto simp add: Cons_eq_append_conv)

text \<open>A run of \<^verbatim>\<open>Log\<close> that opened the object: the request, a run of the loop, the
  release of the stream.\<close>

lemma Log_opened:
  assumes "Message.Source config = []"
    and "s3Client l (bucket l) (ContainerID config) = Inr body"
    and "Log E l ctx config = (res, t)"
  shows "\<exists>new. t = GetObject (bucket l) (ContainerID config) # new @ [Close] \<and>
           loop_run E (ContainerID config) new res"
proof -
  obtain r t' where
    loop: "Log_loop E ctx (ContainerID config) (NewScanner body)
             [GetObject (bucket l) (ContainerID config)] = (r, t')"
    by (metis prod.exhaust)
  with assms have "res = r" "t = t' @ [Close]"
    by (simp_all add: Log_def Let_def)
  with Log_loop_run [OF loop] show ?thesis
    by auto
qed

lemma Log_trace:
  assumes "Log E l ctx config = (res, t)"
  shows "t = [] \<or> t = [GetObject (bucket l) (ContainerID config)] \<or>
         (\<exists>new. t = GetObject (bucket l) (ContainerID config) # new @ [Close] \<and>
            loop_run E (ContainerID config) new res)"
proof (cases "Message.Source config = []")
  case True
  show ?thesis
  proof (cases "s3Client l (bucket l) (ContainerID config)")
    case (Inl e)
    with True assms show ?thesis
      by (auto simp add: Log_def Let_def)
  next
    case (Inr body)
    with True assms Log_opened [of config l body E ctx res t] show ?thesis
      by blast
  qed
next
  case False
  with assms show ?thesis
    by (auto simp add: Log_def)
qed

lemma Log_opened_loop:
  assumes "Message.Source config = []"
    and "s3Client l (bucket l) (ContainerID config) = Inr body"
  shows "Log E l ctx config =
     (fst (Log_loop E ctx (ContainerID config) (NewScanner body)
             [GetObject (bucket l) (ContainerID config)]),
      snd (Log_loop E ctx (ContainerID config) (NewScanner body)
             [GetObject (bucket l) (ContainerID config)]) @ [Close])"
  using assms by (simp add: Log_def Let_def split: prod.splits)

text \<open>What directly follows an encoding that succeeded, and a poll that saw the context
  live.\<close>

lemma loop_run_after_marshal:
  "loop_run E cid new res \<Longrightarrow> new = pre @ Marshal ll None # post \<Longrightarrow>
   \<exists>b q. post = Poll b # q"
proof (induction arbitrary: pre rule: loop_run.induct)
  case (sent ll' new res)
  from sent.prems sent.IH show ?case
    by (auto simp add: Cons_eq_append_conv)
qed (auto simp add: Cons_eq_append_conv)

lemma loop_run_after_poll:
  "loop_run E cid new res \<Longrightarrow> new = pre @ Poll False # post \<Longrightarrow>
   \<exists>ll q. post = Send ll # q"
proof (induction arbitrary: pre rule: loop_run.induct)
  case (sent ll' new res)
  from sent.prems sent.IH show ?case
    by (auto simp add: Cons_eq_append_conv)
qed (auto simp add: Cons_eq_append_conv)

subsection \<open>The loop and the tokens of the scanner\<close>

lemma Log_loop_stop: "Scan s = (False, s') \<Longrightarrow> Log_loop E ctx cid s t = (None, t)"
  by (simp add: Log_loop.simps [of E ctx cid s t])

lemma Log_loop_line:
  assumes "Scan s = (True, s')"
    and "ll = \<lparr>Line = Text s', Source = cid, Partial = False, Timestamp = Now E t\<rparr>"
  shows "Log_loop E ctx cid s t =
    (case MarshalJSON E ll of
       Some e \<Rightarrow> (Some (Errorf ''error marshalling log line: '' e), t @ [Marshal ll (Some e)])
     | None \<Rightarrow>
         if Done ctx (t @ [Marshal ll None]) then (None, t @ [Marshal ll None, Poll True])
         else Log_loop E ctx cid s' (t @ [Marshal ll None, Poll False, Send ll]))"
  using assms by (simp add: Log_loop.simps [of E ctx cid s t] Let_def split: option.splits)

lemma Log_loop_induct [case_names line]:
  assumes "\<And>s t.
    (\<And>s' ll. Scan s = (True, s') \<Longrightarrow>
       ll = \<lparr>Line = Text s', Source = cid, Partial = False, Timestamp = Now E t\<rparr> \<Longrightarrow>
       MarshalJSON E ll = None \<Longrightarrow> \<not> Done ctx (t @ [Marshal ll None]) \<Longrightarrow>
       P s' (t @ [Marshal ll None, Poll False, Send ll])) \<Longrightarrow> P s t"
  shows "P s t"
proof (induction "avail s" arbitrary: s t rule: less_induct)
  case less
  show ?case
    by (rule assms) (rule less, rule Scan_avail)
qed

lemma Tokens_stop: "Scan s = (False, s') \<Longrightarrow> Tokens s = []"
  by (simp add: Tokens.simps [of s])

lemma Tokens_line: "Scan s = (True, s') \<Longrightarrow> Tokens s = Text s' # Tokens s'"
  by (simp add: Tokens.simps [of s])

lemma Log_loop_Tokens:
  "Tokens s1 = Tokens s2 \<Longrightarrow> Log_loop E ctx cid s1 t = Log_loop E ctx cid s2 t"
proof (induction s1 t arbitrary: s2 rule: Log_loop_induct [where E = E and ctx = ctx and cid = cid])
  case (line s1 t)
  obtain b1 s1' where sc1: "Scan s1 = (b1, s1')"
    by (cases "Scan s1")
  obtain b2 s2' where sc2: "Scan s2 = (b2, s2')"
    by (cases "Scan s2")
  show ?case
  proof (cases b1)
    case False
    with sc1 sc2 line.prems have "\<not> b2"
      by (cases b2) (simp_all add: Tokens_stop Tokens_line)
    with False sc1 sc2 show ?thesis
      by (simp add: Log_loop_stop)
  next
    case True
    with sc1 sc2 line.prems have b2: "b2"
      by (cases b2) (simp_all add: Tokens_stop Tokens_line)
    with True sc1 sc2 line.prems have same: "Text s2' = Text s1'" "Tokens s1' = Tokens s2'"
      by (simp_all add: Tokens_line)
    define ll where "ll = \<lparr>Line = Text s1', Source = cid, Partial = False, Timestamp = Now E t\<rparr>"
    have run1: "Log_loop E ctx cid s1 t =
      (case MarshalJSON E ll of
         Some e \<Rightarrow> (Some (Errorf ''error marshalling log line: '' e), t @ [Marshal ll (Some e)])
       | None \<Rightarrow>
           if Done ctx (t @ [Marshal ll None]) then (None, t @ [Marshal ll None, Poll True])
           else Log_loop E ctx cid s1' (t @ [Marshal ll None, Poll False, Send ll]))"
      using sc1 True by (intro Log_loop_line) (simp_all add: ll_def)
    have run2: "Log_loop E ctx cid s2 t =
      (case MarshalJSON E ll of
         Some e \<Rightarrow> (Some (Errorf ''error marshalling log line: '' e), t @ [Marshal ll (Some e)])
       | None \<Rightarrow>
           if Done ctx (t @ [Marshal ll None]) then (None, t @ [Marshal ll None, Poll True])
           else Log_loop E ctx cid s2' (t @ [Marshal ll None, Poll False, Send ll]))"
      using sc2 b2 same by (intro Log_loop_line) (simp_all add: ll_def)
    show ?thesis
    proof (cases "MarshalJSON E ll = None \<and> \<not> Done ctx (t @ [Marshal ll None])")
      case False
      then show ?thesis
        unfolding run1 run2 by (auto split: option.splits)
    next
      case go: True
      have "Log_loop E ctx cid s1' (t @ [Marshal ll None, Poll False, Send ll]) =
            Log_loop E ctx cid s2' (t @ [Marshal ll None, Poll False, Send ll])"
        using line.IH [of s1' ll s2'] sc1 True go same by (simp add: ll_def)
      with go show ?thesis
        unfolding run1 run2 by simp
    qed
  qed
qed

lemma Log_loop_emitted_Tokens:
  "\<exists>k. map Line (emitted (snd (Log_loop E ctx cid s t))) = map Line (emitted t) @ take k (Tokens s)"
proof (induction s t rule: Log_loop_induct [where E = E and ctx = ctx and cid = cid])
  case (line s t)
  obtain b s' where sc: "Scan s = (b, s')"
    by (cases "Scan s")
  define ll where "ll = \<lparr>Line = Text s', Source = cid, Partial = False, Timestamp = Now E t\<rparr>"
  show ?case
  proof (cases "b \<and> MarshalJSON E ll = None \<and> \<not> Done ctx (t @ [Marshal ll None])")
    case False
    have "emitted (snd (Log_loop E ctx cid s t)) = emitted t"
    proof (cases b)
      case True
      with sc False Log_loop_line [of s s' ll cid E t ctx] show ?thesis
        by (auto simp add: ll_def emitted_append split: option.splits)
    next
      case False
      with sc show ?thesis
        by (simp add: Log_loop_stop)
    qed
    then have "map Line (emitted (snd (Log_loop E ctx cid s t))) =
        map Line (emitted t) @ take 0 (Tokens s)"
      by simp
    then show ?thesis ..
  next
    case True
    let ?t = "t @ [Marshal ll None, Poll False, Send ll]"
    from line.IH [of s' ll] sc True
    obtain k where "map Line (emitted (snd (Log_loop E ctx cid s' ?t))) =
        map Line (emitted ?t) @ take k (Tokens s')"
      by (auto simp add: ll_def)
    moreover from sc True Log_loop_line [of s s' ll cid E t ctx]
    have "Log_loop E ctx cid s t = Log_loop E ctx cid s' ?t"
      by (simp add: ll_def)
    moreover from sc True have "Tokens s = Text s' # Tokens s'"
      by (simp add: Tokens_line)
    ultimately have "map Line (emitted (snd (Log_loop E ctx cid s t))) =
        map Line (emitted t) @ take (Suc k) (Tokens s)"
      by (simp add: emitted_append ll_def)
    then show ?thesis ..
  qed
qed

lemma Log_loop_emits_all:
  assumes "\<And>ll. MarshalJSON E ll = None" and "\<And>t. \<not> Done ctx t"
  shows "map Line (emitted (snd (Log_loop E ctx cid s t))) = map Line (emitted t) @ Tokens s"
proof (induction s t rule: Log_loop_induct [where E = E and ctx = ctx and cid = cid])
  case (line s t)
  obtain b s' where sc: "Scan s = (b, s')"
    by (cases "Scan s")
  define ll where "ll = \<lparr>Line = Text s', Source = cid, Partial = False, Timestamp = Now E t\<rparr>"
  show ?case
  proof (cases b)
    case False
    with sc show ?thesis
      by (simp add: Log_loop_stop Tokens_stop)
  next
    case True
    let ?t = "t @ [Marshal ll None, Poll False, Send ll]"
    from line.IH [of s' ll] sc True assms
    have "map Line (emitted (snd (Log_loop E ctx cid s' ?t))) = map Line (emitted ?t) @ Tokens s'"
      by (simp add: ll_def)
    moreover from sc True assms Log_loop_line [of s s' ll cid E t ctx]
    have "Log_loop E ctx cid s t = Log_loop E ctx cid s' ?t"
      by (simp add: ll_def)
    moreover from sc True have "Tokens s = Text s' # Tokens s'"
      by (simp add: Tokens_line)
    ultimately show ?thesis
      by (simp add: emitted_append ll_def)
  qed
qed

lemma loop_run_error:
  "loop_run E cid new res \<Longrightarrow> res = None \<or> (\<exists>ll e. Marshal ll (Some e) \<in> set new)"
  by (induction rule: loop_run.induct) auto

text \<open>Every poll in a trace records what the context answered after the events before
  it.\<close>

definition polled :: "Context \<Rightarrow> event list \<Rightarrow> bool" where
  "polled ctx t \<longleftrightarrow> (\<forall>p b q. t = p @ Poll b # q \<longrightarrow> b = Done ctx p)"

lemma polled_snoc:
  assumes "polled ctx t" and "\<And>b. x = Poll b \<Longrightarrow> b = Done ctx t"
  shows "polled ctx (t @ [x])"
  unfolding polled_def
proof (intro allI impI)
  fix p b q
  assume "t @ [x] = p @ Poll b # q"
  then consider "q = []" "t = p" "x = Poll b" | q' where "t = p @ Poll b # q'"
    by (auto simp add: snoc_eq_split)
  then show "b = Done ctx p"
  proof cases
    case 1
    with assms(2) show ?thesis
      by simp
  next
    case 2
    with assms(1) show ?thesis
      by (auto simp add: polled_def)
  qed
qed

lemma Log_loop_polled:
  "polled ctx t \<Longrightarrow> polled ctx (snd (Log_loop E ctx cid s t))"
proof (induction s t rule: Log_loop_induct [where E = E and ctx = ctx and cid = cid])
  case (line s t)
  obtain b s' where sc: "Scan s = (b, s')"
    by (cases "Scan s")
  define ll where "ll = \<lparr>Line = Text s', Source = cid, Partial = False, Timestamp = Now E t\<rparr>"
  show ?case
  proof (cases b)
    case False
    with sc line.prems show ?thesis
      by (simp add: Log_loop_stop)
  next
    case True
    note run = Log_loop_line [of s s' ll cid E t ctx]
    show ?thesis
    proof (cases "MarshalJSON E ll")
      case (Some e)
      have "polled ctx (t @ [Marshal ll (Some e)])"
        by (rule polled_snoc [OF line.prems]) simp
      with sc True Some run show ?thesis
        by (simp add: ll_def)
    next
      case None
      have t1: "polled ctx (t @ [Marshal ll None])"
        by (rule polled_snoc [OF line.prems]) simp
      show ?thesis
      proof (cases "Done ctx (t @ [Marshal ll None])")
        case cancelled: True
        have "polled ctx ((t @ [Marshal ll None]) @ [Poll True])"
          by (rule polled_snoc [OF t1]) (simp add: cancelled)
        with sc True None cancelled run show ?thesis
          by (simp add: ll_def)
      next
        case False
        have "polled ctx ((t @ [Marshal ll None]) @ [Poll False])"
          by (rule polled_snoc [OF t1]) (simp add: False)
        then have "polled ctx (((t @ [Marshal ll None]) @ [Poll False]) @ [Send ll])"
          by (rule polled_snoc) simp
        then have "polled ctx (t @ [Marshal ll None, Poll False, Send ll])"
          by simp
        from line.IH [OF _ _ None False this] sc True
        have "polled ctx (snd (Log_loop E ctx cid s' (t @ [Marshal ll None, Poll False, Send ll])))"
          by (simp add: ll_def)
        with sc True None False run show ?thesis
          by (simp add: ll_def)
      qed
    qed
  qed
qed

lemma Log_polled: "polled ctx (snd (Log E l ctx config))"
proof -
  have nil: "polled ctx []"
    by (simp add: polled_def)
  have get: "polled ctx [GetObject b k]" for b k
    using polled_snoc [OF nil, of "GetObject b k"] by simp
  show ?thesis
  proof (cases "Message.Source config = []")
    case True
    show ?thesis
    proof (cases "s3Client l (bucket l) (ContainerID config)")
      case (Inl e)
      with True get show ?thesis
        by (simp add: Log_def Let_def)
    next
      case (Inr body)
      have "polled ctx (snd (Log_loop E ctx (ContainerID config) (NewScanner body)
          [GetObject (bucket l) (ContainerID config)]) @ [Close])"
        by (rule polled_snoc [OF Log_loop_polled [OF get]]) simp
      with Log_opened_loop [OF True Inr, of E ctx] show ?thesis
        by simp
    qed
  next
    case False
    with nil show ?thesis
      by (simp add: Log_def)
  qed
qed

lemma Log_live:
  assumes "\<forall>t. \<not> Done ctx t"
  shows "Poll True \<notin> set (snd (Log E l ctx config))"
proof
  assume "Poll True \<in> set (snd (Log E l ctx config))"
  then obtain p q where "snd (Log E l ctx config) = p @ Poll True # q"
    by (auto dest: split_list)
  with Log_polled [of ctx E l config] have "Done ctx p"
    by (auto simp add: polled_def)
  with assms show False
    by simp
qed

lemma Log_encodes:
  assumes "\<forall>ll. MarshalJSON E ll = None"
  shows "Marshal ll (Some e) \<notin> set (snd (Log E l ctx config))"
proof
  assume failed: "Marshal ll (Some e) \<in> set (snd (Log E l ctx config))"
  obtain res t where run: "Log E l ctx config = (res, t)"
    by (cases "Log E l ctx config")
  with failed Log_trace [OF run] obtain new
    where "t = GetObject (bucket l) (ContainerID config) # new @ [Close]"
      and "loop_run E (ContainerID config) new res"
    by auto
  with failed run loop_run_marshalled [of E "ContainerID config" new res ll "Some e"] assms
  show False
    by auto
qed

text \<open>A run of the loop in which the context is never seen cancelled and no encoding
  fails returns \<^verbatim>\<open>nil\<close> and emits every token of the scanner.\<close>

lemma Log_loop_run_through:
  assumes "Poll True \<notin> set (snd (Log_loop E ctx cid s t))"
    and "\<forall>ll e. Marshal ll (Some e) \<notin> set (snd (Log_loop E ctx cid s t))"
  shows "fst (Log_loop E ctx cid s t) = None \<and>
         map Line (emitted (snd (Log_loop E ctx cid s t))) = map Line (emitted t) @ Tokens s"
  using assms
proof (induction s t rule: Log_loop_induct [where E = E and ctx = ctx and cid = cid])
  case (line s t)
  obtain b s' where sc: "Scan s = (b, s')"
    by (cases "Scan s")
  define ll where "ll = \<lparr>Line = Text s', Source = cid, Partial = False, Timestamp = Now E t\<rparr>"
  show ?case
  proof (cases b)
    case False
    with sc show ?thesis
      by (simp add: Log_loop_stop Tokens_stop)
  next
    case True
    note run = Log_loop_line [of s s' ll cid E t ctx]
    let ?t = "t @ [Marshal ll None, Poll False, Send ll]"
    have encoded: "MarshalJSON E ll = None"
    proof (cases "MarshalJSON E ll")
      case (Some e)
      with sc True run line.prems(2) show ?thesis
        by (auto simp add: ll_def)
    qed simp
    have live: "\<not> Done ctx (t @ [Marshal ll None])"
    proof
      assume "Done ctx (t @ [Marshal ll None])"
      with sc True run encoded line.prems(1) show False
        by (simp add: ll_def)
    qed
    from sc True run encoded live
    have step: "Log_loop E ctx cid s t = Log_loop E ctx cid s' ?t"
      by (simp add: ll_def)
    from line.IH [of s' ll] sc True encoded live line.prems step
    have "fst (Log_loop E ctx cid s' ?t) = None \<and>
        map Line (emitted (snd (Log_loop E ctx cid s' ?t))) = map Line (emitted ?t) @ Tokens s'"
      by (simp add: ll_def)
    moreover from sc True have "Tokens s = Text s' # Tokens s'"
      by (simp add: Tokens_line)
    ultimately show ?thesis
      using step by (simp add: emitted_append ll_def)
  qed
qed

lemma Log_run_through:
  assumes "Message.Source config = []"
    and "s3Client l (bucket l) (ContainerID config) = Inr body"
    and "Poll True \<notin> set (snd (Log E l ctx config))"
    and "\<forall>ll e. Marshal ll (Some e) \<notin> set (snd (Log E l ctx config))"
  shows "fst (Log E l ctx config) = None \<and>
         map Line (emitted (snd (Log E l ctx config))) = Tokens (NewScanner body)"
proof -
  let ?loop = "Log_loop E ctx (ContainerID config) (NewScanner body)
     [GetObject (bucket l) (ContainerID config)]"
  note run = Log_opened_loop [OF assms(1,2), of E ctx]
  from assms(3,4) run have "Poll True \<notin> set (snd ?loop)"
    "\<forall>ll e. Marshal ll (Some e) \<notin> set (snd ?loop)"
    by simp_all
  from Log_loop_run_through [OF this] run show ?thesis
    by (simp add: emitted_append)
qed

subsection \<open>What the scanner cuts from a stream\<close>

text \<open>The length of the first line of the data (the bytes before its first newline) and
  of its last line (the bytes after its last newline).\<close>

definition line_len :: "string \<Rightarrow> nat" where
  "line_len data = length (takeWhile (\<lambda>c. c \<noteq> LF) data)"

definition tail_len :: "string \<Rightarrow> nat" where
  "tail_len data = line_len (rev data)"

text \<open>The lines the scanner cuts from the data: up to the end, or to the first line of
  \<open>MaxScanTokenSize\<close> bytes or more, where the scan ends with \<open>ErrTooLong\<close>.\<close>

function cut :: "string \<Rightarrow> string list" where
  "cut data =
     (if data = [] \<or> MaxScanTokenSize \<le> line_len data then []
      else dropCR (take (line_len data) data) # cut (drop (Suc (line_len data)) data))"
  by pat_completeness auto
termination
  by (relation "measure length") auto

declare cut.simps [simp del]

function cut_err :: "string \<Rightarrow> error option" where
  "cut_err data =
     (if data = [] then None
      else if MaxScanTokenSize \<le> line_len data then Some ErrTooLong
      else cut_err (drop (Suc (line_len data)) data))"
  by pat_completeness auto
termination
  by (relation "measure length") auto

declare cut_err.simps [simp del]

text \<open>The bytes a scanner has still to cut, the error its reader is going to end with,
  and the bounds of its buffer.\<close>

definition unread :: "Scanner \<Rightarrow> string" where
  "unread s = pending s @ (if err s = None then delivered 0 (rdr s) else [])"

definition final_err :: "Scanner \<Rightarrow> error" where
  "final_err s = (case err s of None \<Rightarrow> ending 0 (rdr s) | Some e \<Rightarrow> e)"

definition scan_inv :: "Scanner \<Rightarrow> bool" where
  "scan_inv s \<longleftrightarrow>
     maxTokenSize s = MaxScanTokenSize \<and>
     start s + length (pending s) \<le> buf_len s \<and> buf_len s \<le> MaxScanTokenSize"

definition scan_result :: "Scanner \<Rightarrow> bool \<Rightarrow> Scanner \<Rightarrow> bool" where
  "scan_result s b s' \<longleftrightarrow>
     (if unread s = [] then \<not> b \<and> err s' = Some (final_err s)
      else if MaxScanTokenSize \<le> line_len (unread s) then \<not> b \<and> err s' = Some ErrTooLong
      else b \<and> Text s' = dropCR (take (line_len (unread s)) (unread s)) \<and>
           unread s' = drop (Suc (line_len (unread s))) (unread s) \<and>
           final_err s' = final_err s \<and> scan_inv s')"

lemma IndexByte_takeWhile:
  "IndexByte data c =
     (if c \<in> set data then Some (length (takeWhile (\<lambda>x. x \<noteq> c) data)) else None)"
  by (induction data) auto

lemma line_len_le: "line_len data \<le> length data"
  by (simp add: line_len_def length_takeWhile_le)

lemma line_len_newline: "LF \<in> set data \<Longrightarrow> line_len data < length data"
  unfolding line_len_def
  by (induction data) auto

lemma line_len_no_newline: "LF \<notin> set data \<Longrightarrow> line_len data = length data"
  unfolding line_len_def by (induction data) auto

lemma line_len_append1: "LF \<in> set xs \<Longrightarrow> line_len (xs @ ys) = line_len xs"
  unfolding line_len_def by (induction xs) auto

lemma line_len_append2: "LF \<notin> set xs \<Longrightarrow> line_len (xs @ ys) = length xs + line_len ys"
  unfolding line_len_def by (induction xs) auto

lemma line_len_line: "LF \<notin> set xs \<Longrightarrow> line_len (xs @ LF # ys) = length xs"
  by (simp add: line_len_append2) (simp add: line_len_def)

lemma take_line_len: "take (line_len data) data = takeWhile (\<lambda>c. c \<noteq> LF) data"
  by (simp add: line_len_def takeWhile_eq_take [symmetric])

lemma drop_line_len: "drop (Suc (line_len data)) data = tl (dropWhile (\<lambda>c. c \<noteq> LF) data)"
  by (simp add: line_len_def dropWhile_eq_drop drop_Suc tl_drop)

lemma split_line:
  assumes "LF \<in> set data"
  shows "data = take (line_len data) data @ LF # drop (Suc (line_len data)) data"
proof -
  from assms have "dropWhile (\<lambda>c. c \<noteq> LF) data \<noteq> []"
    by (simp add: dropWhile_eq_Nil_conv)
  moreover from this have "hd (dropWhile (\<lambda>c. c \<noteq> LF) data) = LF"
    using hd_dropWhile [of "\<lambda>c. c \<noteq> LF" data] by simp
  ultimately have "dropWhile (\<lambda>c. c \<noteq> LF) data = LF # tl (dropWhile (\<lambda>c. c \<noteq> LF) data)"
    by (cases "dropWhile (\<lambda>c. c \<noteq> LF) data") simp_all
  with takeWhile_dropWhile_id [of "\<lambda>c. c \<noteq> LF" data] show ?thesis
    by (simp add: take_line_len drop_line_len)
qed

lemma tail_len_no_newline: "LF \<notin> set data \<Longrightarrow> tail_len data = length data"
  by (simp add: tail_len_def line_len_no_newline)

lemma tail_len_line: "tail_len (xs @ LF # ys) = tail_len ys"
proof (cases "LF \<in> set ys")
  case True
  then show ?thesis
    by (simp add: tail_len_def line_len_append1)
next
  case False
  then show ?thesis
    by (simp add: tail_len_def line_len_line line_len_no_newline)
qed

lemma tail_len_drop:
  "tail_len data \<noteq> MaxScanTokenSize \<Longrightarrow>
   tail_len (drop (Suc (line_len data)) data) \<noteq> MaxScanTokenSize"
proof (cases "LF \<in> set data")
  case True
  assume "tail_len data \<noteq> MaxScanTokenSize"
  with tail_len_line [of "take (line_len data) data" "drop (Suc (line_len data)) data"]
    split_line [OF True]
  show ?thesis
    by simp
next
  case False
  then have "drop (Suc (line_len data)) data = []"
    by (simp add: line_len_no_newline)
  then show ?thesis
    by (simp add: tail_len_def line_len_def MaxScanTokenSize_def)
qed

lemma ScanLines_line:
  "ScanLines data atEOF =
     (if LF \<in> set data then (Suc (line_len data), Some (dropCR (take (line_len data) data)))
      else if atEOF \<and> data \<noteq> [] then (length data, Some (dropCR data))
      else (0, None))"
  by (auto simp add: ScanLines_def IndexByte_takeWhile line_len_def)

text \<open>The read loop moves bytes from the reader to the buffer, or meets the reader's
  error; the room in the buffer is not empty when it is called.\<close>

lemma readLoop_delivers:
  assumes "err s = None" and "start s + length (pending s) < buf_len s"
  shows "unread (readLoop k s) = pending s @ delivered k (rdr s) \<and>
         final_err (readLoop k s) = ending k (rdr s) \<and>
         start (readLoop k s) = start s \<and> buf_len (readLoop k s) = buf_len s \<and>
         maxTokenSize (readLoop k s) = maxTokenSize s \<and>
         start (readLoop k s) + length (pending (readLoop k s)) \<le> buf_len s"
  using assms
proof (induction k s rule: readLoop.induct)
  case (1 loop s)
  let ?room = "buf_len s - (start s + length (pending s))"
  from "1.prems" have room: "0 < ?room"
    by simp
  show ?case
  proof (cases "rdr s")
    case Nil
    with "1.prems" show ?thesis
      by (simp add: readLoop.simps [of loop s] setErr_def unread_def final_err_def)
  next
    case (Cons ev rest)
    obtain bs e where ev: "ev = (bs, e)"
      by (cases ev)
    show ?thesis
    proof (cases "length bs \<le> ?room")
      case fits: True
      show ?thesis
      proof (cases e)
        case (Some e')
        with fits Cons ev "1.prems" show ?thesis
          by (simp add: readLoop.simps [of loop s] setErr_def unread_def final_err_def)
      next
        case None
        show ?thesis
        proof (cases "bs = []")
          case False
          with None fits Cons ev "1.prems" show ?thesis
            by (simp add: readLoop.simps [of loop s] unread_def final_err_def)
        next
          case True
          show ?thesis
          proof (cases "maxConsecutiveEmptyReads < loop + 1")
            case stall: True
            with True None fits Cons ev "1.prems" show ?thesis
              by (simp add: readLoop.simps [of loop s] setErr_def unread_def final_err_def)
          next
            case False
            let ?s1 = "s\<lparr>rdr := rest, pending := pending s @ bs\<rparr>"
            have rd: "((bs, e), rest) = Read (rdr s) ?room"
              using fits Cons ev by simp
            have "unread (readLoop (loop + 1) ?s1) = pending ?s1 @ delivered (loop + 1) (rdr ?s1) \<and>
              final_err (readLoop (loop + 1) ?s1) = ending (loop + 1) (rdr ?s1) \<and>
              start (readLoop (loop + 1) ?s1) = start ?s1 \<and>
              buf_len (readLoop (loop + 1) ?s1) = buf_len ?s1 \<and>
              maxTokenSize (readLoop (loop + 1) ?s1) = maxTokenSize ?s1 \<and>
              start (readLoop (loop + 1) ?s1) + length (pending (readLoop (loop + 1) ?s1)) \<le> buf_len ?s1"
              using "1.IH" [OF rd refl refl None _ False] True "1.prems" by simp
            moreover have "readLoop loop s = readLoop (loop + 1) ?s1"
              using True None fits Cons ev False by (simp add: readLoop.simps [of loop s])
            ultimately show ?thesis
              using True None Cons ev False by simp
          qed
        qed
      qed
    next
      case False
      with room have "take ?room bs \<noteq> []" "drop ?room bs \<noteq> []"
        by auto
      with False Cons ev "1.prems" show ?thesis
        by (cases e) (simp_all add: readLoop.simps [of loop s] unread_def final_err_def)
    qed
  qed
qed

lemma scan_iter_eof:
  assumes "scan_inv s" and "err s = Some e" and "tail_len (unread s) \<noteq> MaxScanTokenSize"
  shows "\<exists>b s'. scan_iter s = Return b s' \<and> scan_result s b s'"
proof (cases "pending s = []")
  case True
  with assms(2) have "scan_iter s =
      Return False (s\<lparr>start := 0, pending := [], tok := None\<rparr>)"
    by (simp add: scan_iter_def trySplit_def ScanLines_line)
  moreover from True assms have "scan_result s False (s\<lparr>start := 0, pending := [], tok := None\<rparr>)"
    by (simp add: scan_result_def unread_def final_err_def)
  ultimately show ?thesis
    by blast
next
  case False
  let ?n = "line_len (pending s)"
  from assms have fits: "start s + length (pending s) \<le> buf_len s"
    and sizes: "maxTokenSize s = MaxScanTokenSize" "buf_len s \<le> MaxScanTokenSize"
    by (simp_all add: scan_inv_def)
  show ?thesis
  proof (cases "LF \<in> set (pending s)")
    case True
    let ?s' = "s\<lparr>start := start s + Suc ?n, pending := drop (Suc ?n) (pending s),
                  tok := Some (dropCR (take ?n (pending s)))\<rparr>"
    from True False assms(2) have "scan_iter s = Return True ?s'"
      by (simp add: scan_iter_def trySplit_def ScanLines_line)
    moreover from line_len_newline [OF True] assms(2) fits sizes False
    have "scan_result s True ?s'"
      by (simp add: scan_result_def unread_def Text_def scan_inv_def final_err_def)
    ultimately show ?thesis
      by blast
  next
    case noline: False
    let ?s' = "s\<lparr>start := start s + length (pending s), pending := [],
                  tok := Some (dropCR (pending s))\<rparr>"
    from noline assms(2,3) have "length (pending s) \<noteq> MaxScanTokenSize"
      by (simp add: unread_def tail_len_no_newline)
    with fits sizes have short: "length (pending s) < MaxScanTokenSize"
      by simp
    from noline False assms(2) have "scan_iter s = Return True ?s'"
      by (simp add: scan_iter_def trySplit_def ScanLines_line)
    moreover from line_len_no_newline [OF noline] assms(2) short fits sizes False
    have "scan_result s True ?s'"
      by (simp add: scan_result_def unread_def Text_def scan_inv_def final_err_def)
    ultimately show ?thesis
      by blast
  qed
qed

lemma scan_iter_line:
  assumes "scan_inv s" and "err s = None" and "LF \<in> set (pending s)"
  shows "\<exists>s'. scan_iter s = Return True s' \<and> scan_result s True s'"
proof -
  let ?n = "line_len (pending s)"
  let ?s' = "s\<lparr>start := start s + Suc ?n, pending := drop (Suc ?n) (pending s),
                tok := Some (dropCR (take ?n (pending s)))\<rparr>"
  from assms have fits: "start s + length (pending s) \<le> buf_len s"
    and sizes: "maxTokenSize s = MaxScanTokenSize" "buf_len s \<le> MaxScanTokenSize"
    by (simp_all add: scan_inv_def)
  from assms(3) have nonempty: "pending s \<noteq> []"
    by auto
  have n: "?n < length (pending s)"
    by (rule line_len_newline [OF assms(3)])
  with fits sizes have small: "?n < MaxScanTokenSize"
    by simp
  from assms(2,3) nonempty have "scan_iter s = Return True ?s'"
    by (simp add: scan_iter_def trySplit_def ScanLines_line)
  moreover have "scan_result s True ?s'"
    using n small assms(2,3) fits sizes nonempty
    by (simp add: scan_result_def unread_def Text_def scan_inv_def line_len_append1 final_err_def)
  ultimately show ?thesis
    by blast
qed

lemma unread_shift [simp]: "unread (shift s) = unread s"
  by (simp add: unread_def)

lemma unread_grow [simp]: "unread (grow s) = unread s"
  by (simp add: unread_def)

lemma unread_tok [simp]: "unread (s\<lparr>tok := x\<rparr>) = unread s"
  by (simp add: unread_def)

lemma final_err_shift [simp]: "final_err (shift s) = final_err s"
  by (simp add: final_err_def split: option.splits)

lemma final_err_grow [simp]: "final_err (grow s) = final_err s"
  by (simp add: final_err_def split: option.splits)

lemma final_err_tok [simp]: "final_err (s\<lparr>tok := x\<rparr>) = final_err s"
  by (simp add: final_err_def split: option.splits)

lemma shift_start: "start (shift s) \<le> start s"
  by (simp add: shift_def)

lemma shift_full:
  "start (shift s) + length (pending s) = buf_len s \<Longrightarrow> start (shift s) = 0"
  by (auto simp add: shift_def split: if_splits)

lemma buf_len_grow:
  "buf_len s < maxTokenSize s \<Longrightarrow> buf_len s < buf_len (grow s) \<and> buf_len (grow s) \<le> maxTokenSize s"
  by (auto simp add: grow_def Let_def startBufSize_def)

lemma scan_iter_more:
  assumes "scan_inv s" and "err s = None" and "LF \<notin> set (pending s)"
  shows "(\<exists>s'. scan_iter s = Return False s' \<and> scan_result s False s') \<or>
         (\<exists>s2. scan_iter s = Continue s2 \<and> scan_inv s2 \<and> unread s2 = unread s \<and>
            final_err s2 = final_err s)"
proof -
  define s1 where "s1 = s\<lparr>tok := (if pending s \<noteq> [] then None else tok s)\<rparr>"
  define s2 where "s2 = shift s1"
  from assms have fits: "start s + length (pending s) \<le> buf_len s"
    and sizes: "maxTokenSize s = MaxScanTokenSize" "buf_len s \<le> MaxScanTokenSize"
    by (simp_all add: scan_inv_def)
  have s1: "rdr s1 = rdr s" "err s1 = None" "pending s1 = pending s" "start s1 = start s"
    "buf_len s1 = buf_len s" "maxTokenSize s1 = maxTokenSize s" "unread s1 = unread s"
    "final_err s1 = final_err s"
    using assms(2) by (simp_all add: s1_def)
  have s2: "rdr s2 = rdr s" "err s2 = None" "pending s2 = pending s" "start s2 \<le> start s"
    "buf_len s2 = buf_len s" "maxTokenSize s2 = maxTokenSize s" "unread s2 = unread s"
    "final_err s2 = final_err s"
    using s1 shift_start [of s1] by (simp_all add: s2_def)
  have whole: "unread s = pending s @ delivered 0 (rdr s)" "final_err s = ending 0 (rdr s)"
    using assms(2) by (simp_all add: unread_def final_err_def)
  have iter: "scan_iter s =
    (if start s2 + length (pending s2) = buf_len s2 then
       (if maxTokenSize s2 \<le> buf_len s2 \<or> maxInt div 2 < buf_len s2
        then Return False (setErr ErrTooLong s2)
        else Continue (readLoop 0 (grow s2)))
     else Continue (readLoop 0 s2))"
    using assms(2,3)
    by (simp add: scan_iter_def trySplit_def ScanLines_line s1_def s2_def Let_def)
  show ?thesis
  proof (cases "start s2 + length (pending s2) = buf_len s2")
    case full: True
    with s1 have zero: "start s2 = 0"
      using shift_full [of s1] by (simp add: s2_def)
    with full s2 have len: "length (pending s) = buf_len s"
      by simp
    show ?thesis
    proof (cases "maxTokenSize s2 \<le> buf_len s2 \<or> maxInt div 2 < buf_len s2")
      case True
      with s2 sizes have "MaxScanTokenSize \<le> buf_len s"
        by (auto simp add: MaxScanTokenSize_def maxInt_def)
      with len have long: "MaxScanTokenSize \<le> length (pending s)"
        by simp
      then have "pending s \<noteq> []"
        by (auto simp add: MaxScanTokenSize_def)
      with long assms(2,3) s2 have "scan_result s False (setErr ErrTooLong s2)"
        by (simp add: scan_result_def unread_def line_len_append2 setErr_def)
      with iter full True show ?thesis
        by simp
    next
      case False
      with s2 have below: "buf_len s < maxTokenSize s"
        by simp
      let ?g = "grow s2"
      from buf_len_grow [of s2] below s2
      have g: "buf_len s < buf_len ?g" "buf_len ?g \<le> MaxScanTokenSize"
        using sizes by simp_all
      have "start ?g + length (pending ?g) < buf_len ?g"
        using g len s2 by simp
      from readLoop_delivers [OF _ this, of 0] s2 g sizes whole
      have "scan_inv (readLoop 0 ?g) \<and> unread (readLoop 0 ?g) = unread s \<and>
          final_err (readLoop 0 ?g) = final_err s"
        by (simp add: scan_inv_def)
      with iter full False show ?thesis
        by simp
    qed
  next
    case False
    with fits s2 have "start s2 + length (pending s2) < buf_len s2"
      by simp
    from readLoop_delivers [OF _ this, of 0] s2 sizes whole
    have "scan_inv (readLoop 0 s2) \<and> unread (readLoop 0 s2) = unread s \<and>
        final_err (readLoop 0 s2) = final_err s"
      by (simp add: scan_inv_def)
    with iter False show ?thesis
      by simp
  qed
qed

lemma Scan_spec:
  "scan_inv s \<Longrightarrow> tail_len (unread s) \<noteq> MaxScanTokenSize \<Longrightarrow>
   scan_result s (fst (Scan s)) (snd (Scan s))"
proof (induction s rule: Scan.induct)
  case (1 s)
  show ?case
  proof (cases "err s")
    case (Some e)
    from scan_iter_eof [OF "1.prems"(1) Some "1.prems"(2)] show ?thesis
      by (auto simp add: Scan.simps [of s])
  next
    case None
    show ?thesis
    proof (cases "LF \<in> set (pending s)")
      case True
      from scan_iter_line [OF "1.prems"(1) None True] show ?thesis
        by (auto simp add: Scan.simps [of s])
    next
      case False
      from scan_iter_more [OF "1.prems"(1) None False] show ?thesis
      proof
        assume "\<exists>s'. scan_iter s = Return False s' \<and> scan_result s False s'"
        then show ?thesis
          by (auto simp add: Scan.simps [of s])
      next
        assume "\<exists>s2. scan_iter s = Continue s2 \<and> scan_inv s2 \<and> unread s2 = unread s \<and>
            final_err s2 = final_err s"
        then obtain s2 where go: "scan_iter s = Continue s2" and inv: "scan_inv s2"
          and same: "unread s2 = unread s" "final_err s2 = final_err s"
          by blast
        from "1.IH" [OF go inv] same "1.prems"(2)
        have "scan_result s2 (fst (Scan s2)) (snd (Scan s2))"
          by simp
        moreover from go have "Scan s = Scan s2"
          by (simp add: Scan.simps [of s])
        ultimately show ?thesis
          using same by (auto simp add: scan_result_def split: if_splits)
      qed
    qed
  qed
qed

lemma Scan_cases:
  assumes "scan_inv s" and "tail_len (unread s) \<noteq> MaxScanTokenSize"
  obtains (stop) s' where "Scan s = (False, s')"
      and "unread s = [] \<or> MaxScanTokenSize \<le> line_len (unread s)"
      and "err s' = (if unread s = [] then Some (final_err s) else Some ErrTooLong)"
    | (line) s' where "Scan s = (True, s')"
      and "unread s \<noteq> []" and "line_len (unread s) < MaxScanTokenSize"
      and "Text s' = dropCR (take (line_len (unread s)) (unread s))"
      and "unread s' = drop (Suc (line_len (unread s))) (unread s)" and "scan_inv s'"
      and "final_err s' = final_err s" and "tail_len (unread s') \<noteq> MaxScanTokenSize"
proof -
  obtain b s' where sc: "Scan s = (b, s')"
    by (cases "Scan s")
  with Scan_spec [OF assms] have "scan_result s b s'"
    by simp
  with sc stop line tail_len_drop [OF assms(2)] show ?thesis
    by (cases b) (auto simp add: scan_result_def split: if_splits)
qed

lemma Tokens_cut:
  "scan_inv s \<Longrightarrow> tail_len (unread s) \<noteq> MaxScanTokenSize \<Longrightarrow> Tokens s = cut (unread s)"
proof (induction "length (unread s)" arbitrary: s rule: less_induct)
  case less
  from less.prems show ?case
  proof (cases rule: Scan_cases)
    case (stop s')
    then show ?thesis
      by (auto simp add: Tokens_stop cut.simps [of "unread s"])
  next
    case (line s')
    from line(2,5) have "length (unread s') < length (unread s)"
      by simp
    from less.hyps [OF this line(6,8)] line show ?thesis
      by (simp add: Tokens_line cut.simps [of "unread s"])
  qed
qed

lemma ScanErr_cut:
  "scan_inv s \<Longrightarrow> tail_len (unread s) \<noteq> MaxScanTokenSize \<Longrightarrow>
   ScanErr s =
     (case cut_err (unread s) of
        Some e \<Rightarrow> Some e
      | None \<Rightarrow> if final_err s = EOF then None else Some (final_err s))"
proof (induction "length (unread s)" arbitrary: s rule: less_induct)
  case less
  from less.prems show ?case
  proof (cases rule: Scan_cases)
    case (stop s')
    then show ?thesis
      by (auto simp add: ScanErr.simps [of s] cut_err.simps [of "unread s"])
  next
    case (line s')
    from line(2,5) have shorter: "length (unread s') < length (unread s)"
      by simp
    from less.hyps [OF shorter line(6,8)] line show ?thesis
      by (simp add: ScanErr.simps [of s] cut_err.simps [of "unread s"] split: option.splits)
  qed
qed

lemma NewScanner_inv:
  "scan_inv (NewScanner body)"
  "unread (NewScanner body) = delivered 0 body"
  "final_err (NewScanner body) = ending 0 body"
  by (simp_all add: scan_inv_def unread_def final_err_def NewScanner_def)

lemma spec_records_step:
  "data \<noteq> [] \<Longrightarrow>
   spec_records data = take (line_len data) data # spec_records (drop (Suc (line_len data)) data)"
  by (simp add: spec_records.simps [of data] take_line_len drop_line_len)

lemma cut_spec_records:
  "\<forall>r \<in> set (spec_records data). length r < MaxScanTokenSize \<Longrightarrow>
   cut data = map dropCR (spec_records data)"
proof (induction "length data" arbitrary: data rule: less_induct)
  case less
  show ?case
  proof (cases "data = []")
    case True
    then show ?thesis
      by (simp add: cut.simps [of "[]"] spec_records.simps [of "[]"])
  next
    case False
    let ?rest = "drop (Suc (line_len data)) data"
    from False less.prems have short: "line_len data < MaxScanTokenSize"
      and rest: "\<forall>r \<in> set (spec_records ?rest). length r < MaxScanTokenSize"
      using line_len_le [of data] by (simp_all add: spec_records_step)
    from False have "length ?rest < length data"
      by simp
    from less.hyps [OF this rest] False short show ?thesis
      by (simp add: cut.simps [of data] spec_records_step)
  qed
qed

lemma spec_records_tail:
  "\<forall>r \<in> set (spec_records data). length r < MaxScanTokenSize \<Longrightarrow>
   tail_len data \<noteq> MaxScanTokenSize"
proof (induction "length data" arbitrary: data rule: less_induct)
  case less
  show ?case
  proof (cases "LF \<in> set data")
    case True
    let ?rest = "drop (Suc (line_len data)) data"
    from True have nonempty: "data \<noteq> []"
      by auto
    with less.prems have rest: "\<forall>r \<in> set (spec_records ?rest). length r < MaxScanTokenSize"
      by (simp add: spec_records_step)
    from nonempty have "length ?rest < length data"
      by simp
    from less.hyps [OF this rest]
      tail_len_line [of "take (line_len data) data" ?rest] split_line [OF True]
    show ?thesis
      by simp
  next
    case False
    show ?thesis
    proof (cases "data = []")
      case True
      then show ?thesis
        by (simp add: tail_len_def line_len_def MaxScanTokenSize_def)
    next
      case nonempty: False
      with False less.prems have "length data < MaxScanTokenSize"
        by (simp add: spec_records_step line_len_no_newline)
      with False show ?thesis
        by (simp add: tail_len_no_newline)
    qed
  qed
qed

subsection \<open>The runs of the scenarios\<close>

lemmas run_defs =
  Log_def Log_loop.simps Scan.simps scan_iter_def readLoop.simps trySplit_def ScanLines_def
  shift_def grow_def setErr_def NewScanner_def MaxScanTokenSize_def startBufSize_def
  maxConsecutiveEmptyReads_def maxInt_def LF_def CR_def dropCR_def Text_def Let_def
  scenario_body_def scenario_store_def scenario_logger_def scenario_request_def missing_request_def
  stdout_request_def plain_env_def failing_env_def live_ctx_def cancel_after_def
  line1_def line2_def line3_def

lemma run_live:
  "Log plain_env scenario_logger live_ctx scenario_request =
     (None,
      [GetObject ''logs-test'' ''abc123'',
       Marshal line1 None, Poll False, Send line1,
       Marshal line2 None, Poll False, Send line2,
       Marshal line3 None, Poll False, Send line3,
       Close])"
  by (simp add: run_defs)

lemma run_cancelled:
  "Log plain_env scenario_logger (cancel_after 1) scenario_request =
     (None,
      [GetObject ''logs-test'' ''abc123'',
       Marshal line1 None, Poll False, Send line1,
       Marshal line2 None, Poll True,
       Close])"
  by (simp add: run_defs)

lemma run_failing:
  "Log failing_env scenario_logger live_ctx scenario_request =
     (Some (Other ''error marshalling log line: unsupported''),
      [GetObject ''logs-test'' ''abc123'',
       Marshal line1 None, Poll False, Send line1,
       Marshal line2 (Some (Other ''unsupported'')),
       Close])"
  by (simp add: run_defs Errorf_def)

text \<open>A context cancelled only after the three lines, an encoder that fails on a line
  no object holds, and the stream whose read fails.\<close>

lemma run_cancelled_late:
  "Log plain_env scenario_logger (cancel_after 3) scenario_request =
     (None,
      [GetObject ''logs-test'' ''abc123'',
       Marshal line1 None, Poll False, Send line1,
       Marshal line2 None, Poll False, Send line2,
       Marshal line3 None, Poll False, Send line3,
       Close])"
  by (simp add: run_defs)

lemma run_chunked:
  "Log picky_env (logger_of chunked_body) live_ctx scenario_request =
     (None,
      [GetObject ''logs-test'' ''abc123'',
       Marshal line1 None, Poll False, Send line1,
       Marshal line2 None, Poll False, Send line2,
       Marshal line3 None, Poll False, Send line3,
       Close])"
  by (simp add: run_defs picky_env_def logger_of_def chunked_body_def)

lemma run_read_error:
  "Log plain_env (logger_of failing_body) live_ctx scenario_request =
     (None,
      [GetObject ''logs-test'' ''abc123'',
       Marshal line1 None, Poll False, Send line1,
       Marshal line_li None, Poll False, Send line_li,
       Close])"
  by (simp add: run_defs logger_of_def failing_body_def line_li_def)

subsection \<open>The scans of the examples\<close>

lemmas scan_defs =
  Tokens.simps ScanErr.simps Scan.simps scan_iter_def readLoop.simps trySplit_def ScanLines_def
  shift_def grow_def setErr_def NewScanner_def MaxScanTokenSize_def startBufSize_def
  maxConsecutiveEmptyReads_def maxInt_def LF_def CR_def dropCR_def Text_def Let_def

lemma failing_scan:
  "Tokens (NewScanner failing_body) = [''line1'', ''li'']"
  "ScanErr (NewScanner failing_body) = Some (Other ''connection reset'')"
  by (simp_all add: scan_defs failing_body_def)

lemma partial_scan:
  "Tokens (NewScanner partial_body) = [''line1'', ''li'']"
  "ScanErr (NewScanner partial_body) = None"
  by (simp_all add: scan_defs partial_body_def)

lemma line_len_replicate: "c \<noteq> LF \<Longrightarrow> line_len (replicate n c @ ys) = n + line_len ys"
  by (simp add: line_len_append2)

lemma cut_line:
  assumes "LF \<notin> set xs" and "length xs < MaxScanTokenSize"
  shows "cut (xs @ LF # ys) = dropCR xs # cut ys"
    and "cut_err (xs @ LF # ys) = cut_err ys"
  using assms
  by (simp_all add: cut.simps [of "xs @ LF # ys"] cut_err.simps [of "xs @ LF # ys"] line_len_line)

lemma cut_long:
  assumes "MaxScanTokenSize \<le> line_len data"
  shows "cut data = []" and "cut_err data = Some ErrTooLong"
proof -
  from assms have "data \<noteq> []"
    by (auto simp add: line_len_def MaxScanTokenSize_def)
  with assms show "cut data = []" and "cut_err data = Some ErrTooLong"
    by (simp_all add: cut.simps [of data] cut_err.simps [of data])
qed

lemma long_scan:
  "Tokens (NewScanner long_body) = [''line1'']"
  "ScanErr (NewScanner long_body) = Some ErrTooLong"
proof -
  let ?rest = "replicate MaxScanTokenSize (CHR ''x'') @ [LF] @ ''line3''"
  have data: "delivered 0 long_body = ''line1'' @ LF # ?rest"
    by (simp add: long_body_def)
  have line1: "LF \<notin> set ''line1''" "length ''line1'' < MaxScanTokenSize"
    "dropCR ''line1'' = ''line1''"
    by (simp_all add: LF_def MaxScanTokenSize_def dropCR_def CR_def)
  have long: "MaxScanTokenSize \<le> line_len ?rest"
    by (simp add: line_len_replicate LF_def)
  have "tail_len (''line1'' @ LF # replicate MaxScanTokenSize (CHR ''x'') @ LF # ''line3'') =
      tail_len ''line3''"
    by (simp only: tail_len_line)
  also have "\<dots> = 5"
    by (simp add: tail_len_no_newline LF_def)
  finally have tail: "tail_len (delivered 0 long_body) \<noteq> MaxScanTokenSize"
    by (simp add: data MaxScanTokenSize_def)
  from cut_line(1) [OF line1(1,2), of ?rest] cut_long(1) [OF long] line1(3)
  have "cut (delivered 0 long_body) = [''line1'']"
    by (simp only: data)
  with tail show "Tokens (NewScanner long_body) = [''line1'']"
    by (simp add: Tokens_cut NewScanner_inv)
  from cut_line(2) [OF line1(1,2), of ?rest] cut_long(2) [OF long]
  have "cut_err (delivered 0 long_body) = Some ErrTooLong"
    by (simp only: data)
  with tail show "ScanErr (NewScanner long_body) = Some ErrTooLong"
    by (simp add: ScanErr_cut NewScanner_inv)
qed

lemma short_scan:
  "Tokens (NewScanner short_body) = [''line1'']"
  "ScanErr (NewScanner short_body) = None"
  by (simp_all add: scan_defs short_body_def)

lemma spec_records_scenario:
  "spec_records (delivered 0 scenario_body) = [''line1'', ''line2'', ''line3'']"
  "spec_records (delivered 0 chunked_body) = [''line1'' @ [CR], ''line2'', ''line3'']"
  by (simp_all add: spec_records.simps scenario_body_def chunked_body_def LF_def CR_def
      maxConsecutiveEmptyReads_def)

section \<open>The claims\<close>

text \<open>
  C1. When the object is opened and its stream is read to the end (the reads end with
  \<^verbatim>\<open>io.EOF\<close>, so the bytes delivered are the object's), every newline-delimited record
  of the object is shorter than the scanner's limit of \<open>MaxScanTokenSize\<close> bytes, and in
  the run no poll sees the context cancelled and no encoding fails, \<^verbatim>\<open>Log\<close> emits one line
  per record, in the order of the records; the text of a line is its record without a
  trailing carriage return. As stated, for every opened object, the claim does not hold: a
  context seen cancelled ends the run before the records are used up (below, after the
  first of three).
\<close>

theorem Log_emits_records:
  assumes "Message.Source config = []"
    and "s3Client l (bucket l) (ContainerID config) = Inr body"
    and "ending 0 body = EOF"
    and "\<forall>r \<in> set (spec_records (delivered 0 body)). length r < MaxScanTokenSize"
    and "Poll True \<notin> set (snd (Log E l ctx config))"
    and "\<forall>ll e. Marshal ll (Some e) \<notin> set (snd (Log E l ctx config))"
  shows "map Line (emitted (snd (Log E l ctx config))) = map dropCR (spec_records (delivered 0 body)) \<and>
         length (emitted (snd (Log E l ctx config))) = length (spec_records (delivered 0 body))"
proof -
  from Log_run_through [OF assms(1,2,5,6)]
  have "map Line (emitted (snd (Log E l ctx config))) = Tokens (NewScanner body)"
    by simp
  moreover from spec_records_tail [OF assms(4)]
  have "Tokens (NewScanner body) = cut (delivered 0 body)"
    by (simp add: Tokens_cut NewScanner_inv)
  moreover note cut_spec_records [OF assms(4)]
  ultimately have lines: "map Line (emitted (snd (Log E l ctx config))) =
      map dropCR (spec_records (delivered 0 body))"
    by simp
  have "length (emitted (snd (Log E l ctx config))) = length (spec_records (delivered 0 body))"
    using arg_cong [OF lines, of length] by simp
  with lines show ?thesis
    by (rule conjI)
qed

theorem Log_emits_records_witness:
  "map Line (emitted (snd (Log plain_env scenario_logger (cancel_after 3) scenario_request))) =
     [''line1'', ''line2'', ''line3''] \<and>
   length (emitted (snd (Log plain_env scenario_logger (cancel_after 3) scenario_request))) = 3 \<and>
   spec_records (delivered 0 scenario_body) = [''line1'', ''line2'', ''line3''] \<and>
   ending 0 scenario_body = EOF \<and>
   map Line (emitted (snd (Log picky_env (logger_of chunked_body) live_ctx scenario_request))) =
     [''line1'', ''line2'', ''line3''] \<and>
   spec_records (delivered 0 chunked_body) = [''line1'' @ [CR], ''line2'', ''line3''] \<and>
   ending 0 chunked_body = EOF"
proof -
  have src: "Message.Source scenario_request = []"
    by (simp add: scenario_request_def)
  have opened: "s3Client scenario_logger (bucket scenario_logger) (ContainerID scenario_request) =
      Inr scenario_body"
    by (simp add: scenario_logger_def scenario_store_def scenario_request_def)
  have chunked: "s3Client (logger_of chunked_body) (bucket (logger_of chunked_body))
      (ContainerID scenario_request) = Inr chunked_body"
    by (simp add: logger_of_def)
  have short: "\<forall>r \<in> set (spec_records (delivered 0 scenario_body)). length r < MaxScanTokenSize"
    "\<forall>r \<in> set (spec_records (delivered 0 chunked_body)). length r < MaxScanTokenSize"
    by (simp_all add: spec_records_scenario MaxScanTokenSize_def)
  have ends: "ending 0 scenario_body = EOF" "ending 0 chunked_body = EOF"
    by (simp_all add: scenario_body_def chunked_body_def maxConsecutiveEmptyReads_def)
  have live: "Poll True \<notin> set (snd (Log plain_env scenario_logger (cancel_after 3) scenario_request))"
    "Poll True \<notin> set (snd (Log picky_env (logger_of chunked_body) live_ctx scenario_request))"
    by (simp_all add: run_cancelled_late run_chunked)
  have encoded:
    "\<forall>ll e. Marshal ll (Some e) \<notin>
       set (snd (Log plain_env scenario_logger (cancel_after 3) scenario_request))"
    "\<forall>ll e. Marshal ll (Some e) \<notin>
       set (snd (Log picky_env (logger_of chunked_body) live_ctx scenario_request))"
    by (simp_all add: run_cancelled_late run_chunked)
  from Log_emits_records [OF src opened ends(1) short(1) live(1) encoded(1)]
    Log_emits_records [OF src chunked ends(2) short(2) live(2) encoded(2)] ends
  show ?thesis
    by (simp add: spec_records_scenario dropCR_def CR_def)
qed

theorem Log_emits_records_counterexample:
  "Message.Source scenario_request = [] \<and>
   s3Client scenario_logger (bucket scenario_logger) (ContainerID scenario_request) =
     Inr scenario_body \<and>
   ending 0 scenario_body = EOF \<and>
   length (spec_records (delivered 0 scenario_body)) = 3 \<and>
   length (emitted (snd (Log plain_env scenario_logger (cancel_after 1) scenario_request))) = 1"
proof -
  have "length (emitted (snd (Log plain_env scenario_logger (cancel_after 1) scenario_request))) = 1"
    using run_cancelled by simp
  moreover have "length (spec_records (delivered 0 scenario_body)) = 3"
    by (simp add: spec_records_scenario)
  moreover have "Message.Source scenario_request = []"
    by (simp add: scenario_request_def)
  moreover have "s3Client scenario_logger (bucket scenario_logger) (ContainerID scenario_request) =
      Inr scenario_body"
    by (simp add: scenario_logger_def scenario_store_def scenario_request_def)
  moreover have "ending 0 scenario_body = EOF"
    by (simp add: scenario_body_def)
  ultimately show ?thesis
    by (intro conjI)
qed

text \<open>
  C2. The context is polled once per line, before the line is emitted: the encoding of a
  line is directly followed by a poll, every poll comes directly after the encoding of a
  line and records what \<^verbatim>\<open>ctx.Done()\<close> answers at that moment, a poll that sees the context
  live is directly followed by a send, and every send comes directly after the encoding of
  its line and a poll that saw the context live. If a poll sees the context cancelled
  (after the lines of \<open>pre\<close> have been emitted), \<^verbatim>\<open>Log\<close> returns \<^verbatim>\<open>nil\<close> and the only
  thing that happens after that poll is the release of the stream: no further line is
  emitted, whatever is left unread.
\<close>

theorem Log_cancellation:
  assumes "Log E l ctx config = (res, t)"
  shows "(\<forall>pre post. t = pre @ Poll True # post \<longrightarrow>
            res = None \<and> post = [Close] \<and> emitted t = emitted pre) \<and>
         (\<forall>p b q. t = p @ Poll b # q \<longrightarrow>
            b = Done ctx p \<and> (\<exists>p' ll. p = p' @ [Marshal ll None])) \<and>
         (\<forall>p ll q. t = p @ Marshal ll None # q \<longrightarrow>
            (\<exists>q'. q = Poll (Done ctx (p @ [Marshal ll None])) # q')) \<and>
         (\<forall>p q. t = p @ Poll False # q \<longrightarrow> (\<exists>ll q'. q = Send ll # q')) \<and>
         (\<forall>p ll q. t = p @ Send ll # q \<longrightarrow> (\<exists>p'. p = p' @ [Marshal ll None, Poll False]))"
proof -
  let ?get = "GetObject (bucket l) (ContainerID config)"
  have inner: "\<exists>new p1 q1. t = ?get # new @ [Close] \<and> loop_run E (ContainerID config) new res \<and>
      p = ?get # p1 \<and> q = q1 @ [Close] \<and> new = p1 @ x # q1"
    if "t = p @ x # q" and "x \<noteq> Close" and "\<forall>b k. x \<noteq> GetObject b k" for p x q
  proof -
    from that have "t \<noteq> []" "t \<noteq> [?get]"
      by (auto simp add: append_eq_Cons_conv)
    with Log_trace [OF assms] obtain new
      where t: "t = ?get # new @ [Close]" and run: "loop_run E (ContainerID config) new res"
      by auto
    from t that have "?get # new @ [Close] = p @ x # q" "x \<noteq> ?get" "x \<noteq> Close"
      by simp_all
    from wrap_split [OF this] t run show ?thesis
      by blast
  qed
  from Log_polled [of ctx E l config] assms
  have polled: "b = Done ctx p" if "t = p @ Poll b # q" for p b q
    using that by (auto simp add: polled_def)
  have cancel: "res = None \<and> post = [Close] \<and> emitted t = emitted pre"
    if "t = pre @ Poll True # post" for pre post
  proof -
    from inner [OF that] obtain new p1 q1
      where run: "loop_run E (ContainerID config) new res"
        and parts: "pre = ?get # p1" "post = q1 @ [Close]" "new = p1 @ Poll True # q1"
      by auto
    from loop_run_cancel [OF run parts(3)] parts that show ?thesis
      by (simp add: emitted_append)
  qed
  have polls: "b = Done ctx p \<and> (\<exists>p' ll. p = p' @ [Marshal ll None])"
    if "t = p @ Poll b # q" for p b q
  proof -
    from inner [OF that] obtain new p1 q1
      where run: "loop_run E (ContainerID config) new res"
        and parts: "p = ?get # p1" "new = p1 @ Poll b # q1"
      by auto
    from loop_run_before_poll [OF run parts(2)] parts(1) polled [OF that] show ?thesis
      by auto
  qed
  have encoded: "\<exists>q'. q = Poll (Done ctx (p @ [Marshal ll None])) # q'"
    if "t = p @ Marshal ll None # q" for p ll q
  proof -
    from inner [OF that] obtain new p1 q1
      where run: "loop_run E (ContainerID config) new res"
        and parts: "q = q1 @ [Close]" "new = p1 @ Marshal ll None # q1"
      by auto
    from loop_run_after_marshal [OF run parts(2)] obtain b q2 where q1: "q1 = Poll b # q2"
      by auto
    with that parts(1) have "t = (p @ [Marshal ll None]) @ Poll b # q2 @ [Close]"
      by simp
    from polled [OF this] q1 parts(1) show ?thesis
      by simp
  qed
  have live: "\<exists>ll q'. q = Send ll # q'" if "t = p @ Poll False # q" for p q
  proof -
    from inner [OF that] obtain new p1 q1
      where run: "loop_run E (ContainerID config) new res"
        and parts: "q = q1 @ [Close]" "new = p1 @ Poll False # q1"
      by auto
    from loop_run_after_poll [OF run parts(2)] parts(1) show ?thesis
      by auto
  qed
  have sends: "\<exists>p'. p = p' @ [Marshal ll None, Poll False]" if "t = p @ Send ll # q" for p ll q
  proof -
    from inner [OF that] obtain new p1 q1
      where run: "loop_run E (ContainerID config) new res"
        and parts: "p = ?get # p1" "new = p1 @ Send ll # q1"
      by auto
    from loop_run_before_send [OF run parts(2)] parts(1) show ?thesis
      by auto
  qed
  from cancel polls encoded live sends show ?thesis
    by blast
qed

theorem Log_cancellation_witness:
  "Log plain_env scenario_logger (cancel_after 1) scenario_request =
     (None,
      [GetObject ''logs-test'' ''abc123'', Marshal line1 None, Poll False, Send line1,
       Marshal line2 None] @ Poll True # [Close]) \<and>
   Done (cancel_after 1)
     [GetObject ''logs-test'' ''abc123'', Marshal line1 None, Poll False, Send line1,
      Marshal line2 None] \<and>
   emitted [GetObject ''logs-test'' ''abc123'', Marshal line1 None, Poll False, Send line1,
       Marshal line2 None] = [line1] \<and>
   emitted ([GetObject ''logs-test'' ''abc123'', Marshal line1 None, Poll False, Send line1,
       Marshal line2 None] @ Poll True # [Close]) =
   emitted [GetObject ''logs-test'' ''abc123'', Marshal line1 None, Poll False, Send line1,
       Marshal line2 None]"
proof -
  have run: "Log plain_env scenario_logger (cancel_after 1) scenario_request =
     (None,
      [GetObject ''logs-test'' ''abc123'', Marshal line1 None, Poll False, Send line1,
       Marshal line2 None] @ Poll True # [Close])"
    using run_cancelled by simp
  note claim = Log_cancellation [OF run]
  note stop = claim [THEN conjunct1, THEN spec, THEN spec, THEN mp, OF refl]
  note poll = claim [THEN conjunct2, THEN conjunct1, THEN spec, THEN spec, THEN spec, THEN mp,
      OF refl, THEN conjunct1]
  have lines: "emitted [GetObject ''logs-test'' ''abc123'', Marshal line1 None, Poll False,
      Send line1, Marshal line2 None] = [line1]"
    by simp
  from run poll [THEN iffD1, OF TrueI] lines stop [THEN conjunct2, THEN conjunct2]
  show ?thesis
    by (intro conjI)
qed

text \<open>
  C3. For a request with an empty source tag, if \<^verbatim>\<open>GetObjectWithContext\<close> fails, \<^verbatim>\<open>Log\<close>
  returns an error whose message is \<^verbatim>\<open>failed to get object from S3: \<close> followed by the
  message of the cause. The request to S3 is the only thing it has done: one request (no
  retry) and no line emitted.
\<close>

theorem Log_fetch_error:
  assumes "Message.Source config = []"
    and "s3Client l (bucket l) (ContainerID config) = Inl cause"
  shows "Log E l ctx config =
           (Some (Other (''failed to get object from S3: '' @ message cause)),
            [GetObject (bucket l) (ContainerID config)])"
  using assms by (simp add: Log_def Let_def Errorf_def)

theorem Log_fetch_error_witness:
  "Log plain_env scenario_logger live_ctx missing_request =
     (Some (Other ''failed to get object from S3: NoSuchKey''),
      [GetObject ''logs-test'' ''missing-obj''])"
proof -
  have src: "Message.Source missing_request = []"
    by (simp add: missing_request_def)
  have missing: "s3Client scenario_logger (bucket scenario_logger) (ContainerID missing_request) =
      Inl (Other ''NoSuchKey'')"
    by (simp add: scenario_logger_def scenario_store_def missing_request_def)
  from Log_fetch_error [OF src missing, of plain_env live_ctx] show ?thesis
    by (simp add: scenario_logger_def missing_request_def)
qed

text \<open>
  C4. Every line \<^verbatim>\<open>Log\<close> emits has the request's container id as its source and is not
  partial.
\<close>

theorem Log_emitted_source:
  "\<forall>ll \<in> set (emitted (snd (Log E l ctx config))).
     LogLine.Source ll = ContainerID config \<and> Partial ll = False"
proof
  fix ll
  assume ll: "ll \<in> set (emitted (snd (Log E l ctx config)))"
  obtain res t where run: "Log E l ctx config = (res, t)"
    by (metis prod.exhaust)
  with ll have "emitted t \<noteq> []"
    by auto
  with Log_trace [OF run] obtain new
    where t: "t = GetObject (bucket l) (ContainerID config) # new @ [Close]"
      and new: "loop_run E (ContainerID config) new res"
    by auto
  have "emitted (new @ [Close]) = emitted new"
    by (simp add: emitted_append)
  with ll run t have "ll \<in> set (emitted new)"
    by simp
  from loop_run_emitted [OF new this]
  show "LogLine.Source ll = ContainerID config \<and> Partial ll = False"
    by simp
qed

theorem Log_emitted_source_witness:
  "emitted (snd (Log plain_env scenario_logger live_ctx scenario_request)) = [line1, line2, line3] \<and>
   LogLine.Source line1 = ContainerID scenario_request \<and> Partial line1 = False \<and>
   LogLine.Source line2 = ContainerID scenario_request \<and> Partial line2 = False \<and>
   LogLine.Source line3 = ContainerID scenario_request \<and> Partial line3 = False"
proof -
  have sent: "emitted (snd (Log plain_env scenario_logger live_ctx scenario_request)) =
      [line1, line2, line3]"
    by (simp add: run_live)
  from Log_emitted_source [of plain_env scenario_logger live_ctx scenario_request]
  have "\<forall>ll \<in> set [line1, line2, line3].
      LogLine.Source ll = ContainerID scenario_request \<and> Partial ll = False"
    by (simp only: sent)
  with sent show ?thesis
    by simp
qed

text \<open>
  C5. A request whose source tag is not empty does nothing: no request to S3, no line
  emitted, and \<^verbatim>\<open>Log\<close> returns \<^verbatim>\<open>nil\<close>.
\<close>

theorem Log_source_filter:
  "Message.Source config \<noteq> [] \<Longrightarrow> Log E l ctx config = (None, [])"
  by (simp add: Log_def)

theorem Log_source_filter_witness:
  "Message.Source stdout_request \<noteq> [] \<and>
   Log plain_env scenario_logger live_ctx stdout_request = (None, [])"
proof -
  have tagged: "Message.Source stdout_request \<noteq> []"
    by (simp add: stdout_request_def)
  from tagged Log_source_filter [OF tagged, of plain_env scenario_logger live_ctx]
  show ?thesis
    by (rule conjI)
qed

text \<open>
  C6. If the encoding of a line fails, \<^verbatim>\<open>Log\<close> returns an error whose message is
  \<^verbatim>\<open>error marshalling log line: \<close> followed by the message of the cause, and the only
  thing that happens after the failed encoding is the release of the stream: the line
  that failed is not emitted, and no line after it is read or emitted.
\<close>

theorem Log_encoding_error:
  assumes "Log E l ctx config = (res, t)"
    and "t = pre @ Marshal ll (Some e) # post"
  shows "res = Some (Other (''error marshalling log line: '' @ message e)) \<and>
         post = [Close] \<and> Send ll \<notin> set t \<and> MarshalJSON E ll = Some e"
proof -
  let ?get = "GetObject (bucket l) (ContainerID config)"
  from assms have "Marshal ll (Some e) \<in> set t"
    by simp
  with Log_trace [OF assms(1)] obtain new
    where t: "t = ?get # new @ [Close]" and run: "loop_run E (ContainerID config) new res"
    by auto
  from t assms(2) have "?get # new @ [Close] = pre @ Marshal ll (Some e) # post"
    by simp
  from wrap_split [OF this] obtain pre' post'
    where post: "post = post' @ [Close]" and new: "new = pre' @ Marshal ll (Some e) # post'"
    by auto
  from loop_run_failure [OF run new]
  have stop: "res = Some (Errorf ''error marshalling log line: '' e)" "post' = []"
    by simp_all
  from new have "Marshal ll (Some e) \<in> set new"
    by simp
  from loop_run_marshalled [OF run this] have fails: "MarshalJSON E ll = Some e" .
  have "Send ll \<notin> set new"
    using loop_run_sent [OF run, of ll] fails by auto
  with t have "Send ll \<notin> set t"
    by simp
  with stop post fails show ?thesis
    by (simp add: Errorf_def)
qed

theorem Log_encoding_error_witness:
  "Log failing_env scenario_logger live_ctx scenario_request =
     (Some (Other ''error marshalling log line: unsupported''),
      [GetObject ''logs-test'' ''abc123'', Marshal line1 None, Poll False, Send line1] @
      Marshal line2 (Some (Other ''unsupported'')) # [Close]) \<and>
   Some (Other ''error marshalling log line: unsupported'') =
     Some (Other (''error marshalling log line: '' @ message (Other ''unsupported''))) \<and>
   MarshalJSON failing_env line2 = Some (Other ''unsupported'')"
proof -
  have run: "Log failing_env scenario_logger live_ctx scenario_request =
     (Some (Other ''error marshalling log line: unsupported''),
      [GetObject ''logs-test'' ''abc123'', Marshal line1 None, Poll False, Send line1] @
      Marshal line2 (Some (Other ''unsupported'')) # [Close])"
    by (simp add: run_failing)
  note claim = Log_encoding_error [OF run refl]
  from run claim [THEN conjunct1] claim [THEN conjunct2, THEN conjunct2, THEN conjunct2]
  show ?thesis
    by (intro conjI)
qed

text \<open>
  C7. \<^verbatim>\<open>Log\<close> never looks at the scanner's error. A run in which no poll sees the context
  cancelled and no encoding fails returns \<^verbatim>\<open>nil\<close> and has emitted exactly the tokens the
  scanner yields, whether the scan stopped at the end of the stream or at an error (a
  failed read, a line as long as the scanner's limit). In every run \<^verbatim>\<open>Log\<close> returns
  \<^verbatim>\<open>nil\<close> unless an encoding failed, and the lines it has emitted are the first tokens
  of the scan. A stream whose scan ends in an error gives the same run as any other
  stream that yields the same tokens, in particular one that is read to its end.
\<close>

theorem Log_ignores_scanner_error:
  assumes "Message.Source config = []"
    and "s3Client l (bucket l) (ContainerID config) = Inr body"
  shows "(Poll True \<notin> set (snd (Log E l ctx config)) \<and>
          (\<forall>ll e. Marshal ll (Some e) \<notin> set (snd (Log E l ctx config))) \<longrightarrow>
            fst (Log E l ctx config) = None \<and>
            map Line (emitted (snd (Log E l ctx config))) = Tokens (NewScanner body)) \<and>
         (fst (Log E l ctx config) = None \<or>
          (\<exists>ll e. Marshal ll (Some e) \<in> set (snd (Log E l ctx config)))) \<and>
         (\<exists>k. map Line (emitted (snd (Log E l ctx config))) = take k (Tokens (NewScanner body))) \<and>
         (\<forall>l' body'.
            s3Client l' (bucket l') (ContainerID config) = Inr body' \<and> bucket l' = bucket l \<and>
            Tokens (NewScanner body') = Tokens (NewScanner body) \<longrightarrow>
            Log E l' ctx config = Log E l ctx config)"
proof -
  let ?get = "GetObject (bucket l) (ContainerID config)"
  let ?loop = "Log_loop E ctx (ContainerID config) (NewScanner body) [?get]"
  have run: "Log E l ctx config = (fst ?loop, snd ?loop @ [Close])"
    by (rule Log_opened_loop [OF assms(1,2)])
  have through: "fst (Log E l ctx config) = None \<and>
      map Line (emitted (snd (Log E l ctx config))) = Tokens (NewScanner body)"
    if "Poll True \<notin> set (snd (Log E l ctx config))"
      and "\<forall>ll e. Marshal ll (Some e) \<notin> set (snd (Log E l ctx config))"
    using Log_run_through [OF assms that] .
  have same: "Log E l' ctx config = Log E l ctx config"
    if "s3Client l' (bucket l') (ContainerID config) = Inr body'" and "bucket l' = bucket l"
      and "Tokens (NewScanner body') = Tokens (NewScanner body)" for l' body'
  proof -
    from assms(1) that(1,2) have "Log E l' ctx config =
        (fst (Log_loop E ctx (ContainerID config) (NewScanner body') [?get]),
         snd (Log_loop E ctx (ContainerID config) (NewScanner body') [?get]) @ [Close])"
      using Log_opened_loop [of config l' body' E ctx] by simp
    with run Log_loop_Tokens [OF that(3), of E ctx "ContainerID config" "[?get]"]
    show ?thesis
      by simp
  qed
  from Log_opened [OF assms(1,2) run] obtain new
    where "snd ?loop @ [Close] = ?get # new @ [Close]"
      and "loop_run E (ContainerID config) new (fst ?loop)"
    by blast
  with loop_run_error [of E "ContainerID config" new "fst ?loop"] run
  have nil: "fst (Log E l ctx config) = None \<or>
      (\<exists>ll e. Marshal ll (Some e) \<in> set (snd (Log E l ctx config)))"
    by auto
  from Log_loop_emitted_Tokens [of E ctx "ContainerID config" "NewScanner body" "[?get]"] run
  have "\<exists>k. map Line (emitted (snd (Log E l ctx config))) = take k (Tokens (NewScanner body))"
    by (simp add: emitted_append)
  with through same nil show ?thesis
    by blast
qed

theorem Log_ignores_scanner_error_witness:
  "ScanErr (NewScanner failing_body) = Some (Other ''connection reset'') \<and>
   Log plain_env (logger_of failing_body) live_ctx scenario_request =
     (None,
      [GetObject ''logs-test'' ''abc123'',
       Marshal line1 None, Poll False, Send line1,
       Marshal line_li None, Poll False, Send line_li,
       Close]) \<and>
   map Line (emitted (snd (Log plain_env (logger_of failing_body) live_ctx scenario_request))) =
     [''line1'', ''li''] \<and>
   ScanErr (NewScanner partial_body) = None \<and>
   Log plain_env (logger_of partial_body) live_ctx scenario_request =
     Log plain_env (logger_of failing_body) live_ctx scenario_request \<and>
   ScanErr (NewScanner long_body) = Some ErrTooLong \<and>
   fst (Log plain_env (logger_of long_body) live_ctx scenario_request) = None \<and>
   map Line (emitted (snd (Log plain_env (logger_of long_body) live_ctx scenario_request))) =
     [''line1''] \<and>
   ScanErr (NewScanner short_body) = None \<and>
   Log plain_env (logger_of short_body) live_ctx scenario_request =
     Log plain_env (logger_of long_body) live_ctx scenario_request"
proof -
  have src: "Message.Source scenario_request = []"
    by (simp add: scenario_request_def)
  have opened: "s3Client (logger_of body) (bucket (logger_of body')) (ContainerID scenario_request) =
      Inr body" for body body'
    by (simp add: logger_of_def)
  have buckets: "bucket (logger_of body) = bucket (logger_of body')" for body body'
    by (simp add: logger_of_def)
  have live: "Poll True \<notin> set (snd (Log plain_env l live_ctx scenario_request))" for l
    by (rule Log_live) (simp add: live_ctx_def)
  have encoded: "\<forall>ll e. Marshal ll (Some e) \<notin> set (snd (Log plain_env l live_ctx scenario_request))"
    for l
    using Log_encodes [of plain_env _ _ l live_ctx scenario_request] by (simp add: plain_env_def)
  note failing = Log_ignores_scanner_error [OF src opened [of failing_body failing_body],
      of plain_env live_ctx]
  note long = Log_ignores_scanner_error [OF src opened [of long_body long_body],
      of plain_env live_ctx]
  from failing [THEN conjunct1] live encoded
  have read_error: "map Line (emitted (snd (Log plain_env (logger_of failing_body) live_ctx
      scenario_request))) = [''line1'', ''li'']"
    by (simp add: failing_scan)
  from failing [THEN conjunct2, THEN conjunct2, THEN conjunct2, THEN spec, THEN spec,
      of "logger_of partial_body" partial_body] opened buckets
  have partial: "Log plain_env (logger_of partial_body) live_ctx scenario_request =
      Log plain_env (logger_of failing_body) live_ctx scenario_request"
    by (simp add: failing_scan partial_scan)
  from long [THEN conjunct1] live encoded
  have too_long: "fst (Log plain_env (logger_of long_body) live_ctx scenario_request) = None"
    "map Line (emitted (snd (Log plain_env (logger_of long_body) live_ctx scenario_request))) =
      [''line1'']"
    by (simp_all add: long_scan)
  from long [THEN conjunct2, THEN conjunct2, THEN conjunct2, THEN spec, THEN spec,
      of "logger_of short_body" short_body] opened buckets
  have short: "Log plain_env (logger_of short_body) live_ctx scenario_request =
      Log plain_env (logger_of long_body) live_ctx scenario_request"
    by (simp add: long_scan short_scan)
  from read_error partial too_long short run_read_error show ?thesis
    by (simp add: failing_scan partial_scan long_scan short_scan)
qed

text \<open>
  C8. \<^verbatim>\<open>Capabilities\<close> is a constant: for every logger it returns
  \<^verbatim>\<open>ReadLogs: false, ReadConfig: false\<close>. It is a function of nothing else, it has no
  error result and it leaves no event.
\<close>

theorem Capabilities_constant:
  "Capabilities l = \<lparr>ReadLogs = False, ReadConfig = False\<rparr>"
  by (simp add: Capabilities_def)

theorem Capabilities_constant_witness:
  "Capabilities scenario_logger = \<lparr>ReadLogs = False, ReadConfig = False\<rparr>"
  by (rule Capabilities_constant)

text \<open>
  C9. When the object was opened, the stream is closed exactly once, as the last thing
  \<^verbatim>\<open>Log\<close> does, whatever ended the loop (the end of the scan, a failed encoding or a
  cancelled context).
\<close>

theorem Log_closes_once:
  assumes "Message.Source config = []"
    and "s3Client l (bucket l) (ContainerID config) = Inr body"
  shows "count_list (snd (Log E l ctx config)) Close = 1 \<and>
         last (snd (Log E l ctx config)) = Close"
proof -
  obtain res t where run: "Log E l ctx config = (res, t)"
    by (metis prod.exhaust)
  from Log_opened [OF assms run] obtain new
    where t: "t = GetObject (bucket l) (ContainerID config) # new @ [Close]"
      and new: "loop_run E (ContainerID config) new res"
    by auto
  from loop_run_events [OF new] have "Close \<notin> set new"
    by simp
  then have "count_list new Close = 0"
    by (simp add: count_list_0_iff)
  with run t show ?thesis
    by simp
qed

theorem Log_closes_once_witness:
  "count_list (snd (Log plain_env scenario_logger live_ctx scenario_request)) Close = 1 \<and>
   last (snd (Log plain_env scenario_logger live_ctx scenario_request)) = Close"
proof -
  have src: "Message.Source scenario_request = []"
    by (simp add: scenario_request_def)
  have opened: "s3Client scenario_logger (bucket scenario_logger) (ContainerID scenario_request) =
      Inr scenario_body"
    by (simp add: scenario_logger_def scenario_store_def scenario_request_def)
  from Log_closes_once [OF src opened] show ?thesis .
qed

text \<open>
  C10. When the bucket name is empty after the flags are parsed, \<^verbatim>\<open>main\<close> prints
  \<^verbatim>\<open>Please provide an S3 bucket name\<close> on standard output and exits with status 1. It
  does nothing else: no session, no S3 client, no handler, no registration.
\<close>

theorem main_missing_bucket:
  "S3Bucket opts = [] \<Longrightarrow>
   main opts sess serve = ([Stdout (''Please provide an S3 bucket name'' @ [LF])], Exit 1)"
  by (simp add: main_def)

theorem main_missing_bucket_witness:
  "S3Bucket \<lparr>S3Bucket = []\<rparr> = [] \<and>
   main \<lparr>S3Bucket = []\<rparr> None None =
     ([Stdout (''Please provide an S3 bucket name'' @ [LF])], Exit 1)"
proof -
  have absent: "S3Bucket \<lparr>S3Bucket = []\<rparr> = []"
    by simp
  from absent main_missing_bucket [OF absent, of None None] show ?thesis
    by (rule conjI)
qed

section \<open>Further properties\<close>

text \<open>
  When \<^verbatim>\<open>h.ServeUnix\<close> returns an error, \<^verbatim>\<open>main\<close> has made the session, the S3 client and
  the handler; it prints \<^verbatim>\<open>Error starting the S3 logger: \<close> and the error's message on
  standard output and exits with status 1.
\<close>

theorem main_registration_error:
  "S3Bucket opts \<noteq> [] \<Longrightarrow>
   main opts None (Some e) =
     ([NewSession, S3New, NewHandler (S3Bucket opts), ServeUnix ''s3logdriver'' 0,
       Stdout (''Error starting the S3 logger: '' @ message e @ [LF])],
      Exit 1)"
  by (simp add: main_def driverName_def)

theorem main_registration_error_witness:
  "S3Bucket \<lparr>S3Bucket = ''logs-test''\<rparr> \<noteq> [] \<and>
   main \<lparr>S3Bucket = ''logs-test''\<rparr> None (Some (Other ''address already in use'')) =
     ([NewSession, S3New, NewHandler ''logs-test'', ServeUnix ''s3logdriver'' 0,
       Stdout (''Error starting the S3 logger: address already in use'' @ [LF])],
      Exit 1)"
proof -
  have given: "S3Bucket \<lparr>S3Bucket = ''logs-test''\<rparr> \<noteq> []"
    by simp
  from main_registration_error [OF given, of "Other ''address already in use''"] given
  show ?thesis
    by simp
qed

text \<open>
  When the object is opened, no encoding fails and the context is cancelled at every
  poll, \<^verbatim>\<open>Log\<close> returns \<^verbatim>\<open>nil\<close> and emits no line.
\<close>

theorem Log_cancelled_throughout:
  assumes "Message.Source config = []"
    and "s3Client l (bucket l) (ContainerID config) = Inr body"
    and "\<forall>ll. MarshalJSON E ll = None"
    and "\<forall>t. Done ctx t"
  shows "fst (Log E l ctx config) = None \<and> emitted (snd (Log E l ctx config)) = []"
proof -
  let ?get = "GetObject (bucket l) (ContainerID config)"
  let ?s = "NewScanner body"
  obtain b s' where sc: "Scan ?s = (b, s')"
    by (cases "Scan ?s")
  have "fst (Log_loop E ctx (ContainerID config) ?s [?get]) = None \<and>
      emitted (snd (Log_loop E ctx (ContainerID config) ?s [?get])) = []"
  proof (cases b)
    case True
    with sc assms(3,4) Log_loop_line [of ?s s' _ "ContainerID config" E "[?get]" ctx]
    show ?thesis
      by simp
  next
    case False
    with sc show ?thesis
      by (simp add: Log_loop_stop)
  qed
  with Log_opened_loop [OF assms(1,2), of E ctx] show ?thesis
    by (simp add: emitted_append)
qed

theorem Log_cancelled_throughout_witness:
  "fst (Log plain_env scenario_logger (cancel_after 0) scenario_request) = None \<and>
   emitted (snd (Log plain_env scenario_logger (cancel_after 0) scenario_request)) = []"
proof -
  have src: "Message.Source scenario_request = []"
    by (simp add: scenario_request_def)
  have opened: "s3Client scenario_logger (bucket scenario_logger) (ContainerID scenario_request) =
      Inr scenario_body"
    by (simp add: scenario_logger_def scenario_store_def scenario_request_def)
  have encodes: "\<forall>ll. MarshalJSON plain_env ll = None"
    by (simp add: plain_env_def)
  have cancelled: "\<forall>t. Done (cancel_after 0) t"
    by (simp add: cancel_after_def)
  from Log_cancelled_throughout [OF src opened encodes cancelled] show ?thesis .
qed

end
